theory Spec2Isabelle
  imports Complex_Main "HOL-Library.AList"
begin

section \<open>Data model (types/workflow.ts)\<close>

text \<open>
  Values that travel through a workflow context are JavaScript values of type \<open>any\<close>.
  They are modelled by a JSON-like datatype; objects and \<open>Map\<close>s are association lists in
  insertion order, written with \<open>AList.update\<close> (replace in place, or append), which is the
  order \<open>Object.keys\<close>, \<open>Map.keys\<close> and \<open>for ... of\<close> follow; an object given as
  input has each key once. The numbers inside values are integers. Values are immutable:
  a write through a nested object shared by two contexts is not modelled.
\<close>

datatype jsval =
    JUndefined
  | JNull
  | JBool bool
  | JNum int
  | JStr string
  | JArr "jsval list"
  | JObj "(string \<times> jsval) list"

type_synonym js_object = "(string \<times> jsval) list"

text \<open>An \<open>Error\<close> object is its message; a thrown value is an \<open>Error\<close> or anything else.\<close>

datatype js_error = Error string

datatype thrown = ThrowError js_error | ThrowOther string

datatype NodeStatus = PENDING | RUNNING | SUCCESS | FAILED | SKIPPED

datatype backoff_kind = Linear | Exponential

record RetryPolicy =
  maxAttempts :: int
  backoff :: backoff_kind
  initialDelay :: int

text \<open>
  The node types whose work is done by a collaborator outside the engine (models,
  downloads, scripts, HTTP, GitHub, processes, the vector store, extension nodes).
\<close>

datatype external_type =
  MODEL | DOWNLOAD | SCRIPT | API_CALL | GITHUB_ACTION | OS_COMMAND | VECTOR_GENERATION | CUSTOM

text \<open>The tagged union \<open>NodeConfig\<close>: the fields each node type adds to the base fields.\<close>

datatype node_kind =
    ConditionNode string "string list" "string list"
      \<comment> \<open>condition, trueBranch, falseBranch\<close>
  | LoopNode string "string list" "rat option"
      \<comment> \<open>iterationSource, childNodes, maxIterations?\<close>
  | ContextInjectionNode js_object bool
      \<comment> \<open>injections, merge\<close>
  | NestedWorkflowNode string
      \<comment> \<open>workflowId\<close>
  | ParallelNode "string list" bool
      \<comment> \<open>childNodes, waitForAll\<close>
  | ExternalNode external_type

record NodeConfig =
  node_id :: string
  node_name :: string
  dependencies :: "string list"
  retryPolicy :: "RetryPolicy option"
  timeout :: "int option"
  overrides :: "js_object option"
  kind :: node_kind

record WorkflowDefinition =
  wf_id :: string
  wf_name :: string
  wf_version :: string
  nodes :: "NodeConfig list"
  entryNodes :: "string list"

record WorkflowContext =
  workflowId :: string
  executionId :: string
  data :: js_object
  variables :: js_object
  outputs :: js_object
  metadata :: js_object

text \<open>
  \<open>NodeExecutionResult\<close> without its clock readings (\<open>startTime\<close>, \<open>endTime\<close>,
  \<open>duration\<close>). An absent \<open>output\<close> is \<open>JUndefined\<close>, an absent \<open>error\<close> is \<open>None\<close>.
\<close>

record NodeExecutionResult =
  result_nodeId :: string
  status :: NodeStatus
  output_value :: jsval
  error :: "js_error option"
  attempts :: nat

datatype workflow_status = Success | Failed | Partial

type_synonym node_results = "(string \<times> NodeExecutionResult) list"

record 'w WorkflowExecutionResult =
  res_workflowId :: string
  res_executionId :: string
  res_status :: workflow_status
  nodeResults :: node_results
  res_context :: WorkflowContext
  res_world :: 'w

section \<open>The world outside the engine\<close>

text \<open>
  Everything the engine calls outside itself is a parameter. The world \<open>'w\<close> is whatever
  the collaborators and the host keep; \<open>aborted\<close> reads the abort signal of the run from it.
  \<^item> \<open>js_eval expr data outs vars world\<close> is
    \<open>new Function('ctx', 'with(ctx) { return expr; }')\<close> applied to
    \<open>{context: data, outputs: outs, variables: vars}\<close>. The three objects are the live
    objects of the context, so the expression can write them: the call gives what the
    expression returned or threw, the three objects afterwards and the world afterwards;
  \<^item> \<open>inherited world v part\<close> is \<open>v[part]\<close> where \<open>part\<close> is not an own property of \<open>v\<close>:
    what the prototype chain holds in that world (\<open>undefined\<close> for most names; an
    expression evaluated earlier can have added to it). Reading it changes nothing;
  \<^item> \<open>external node context world\<close> is the collaborator call of an external node type:
    what it returned or threw, the context and the world afterwards, and the
    milliseconds it took;
  \<^item> \<open>sleep ms world\<close> is the world after waiting \<open>ms\<close> milliseconds.
\<close>

record 'w environment =
  js_eval :: "string \<Rightarrow> js_object \<Rightarrow> js_object \<Rightarrow> js_object \<Rightarrow> 'w
                \<Rightarrow> (thrown + jsval) \<times> js_object \<times> js_object \<times> js_object \<times> 'w"
  inherited :: "'w \<Rightarrow> jsval \<Rightarrow> string \<Rightarrow> jsval"
  external :: "NodeConfig \<Rightarrow> WorkflowContext \<Rightarrow> 'w \<Rightarrow> (thrown + jsval) \<times> WorkflowContext \<times> 'w \<times> int"
  sleep :: "int \<Rightarrow> 'w \<Rightarrow> 'w"
  aborted :: "'w \<Rightarrow> bool"

section \<open>Node executor (engine/nodeExecutor.ts)\<close>

subsection \<open>Helpers\<close>

text \<open>\<open>Boolean(v)\<close>.\<close>

fun truthy :: "jsval \<Rightarrow> bool" where
  "truthy JUndefined = False"
| "truthy JNull = False"
| "truthy (JBool b) = b"
| "truthy (JNum n) = (n \<noteq> 0)"
| "truthy (JStr s) = (s \<noteq> [])"
| "truthy (JArr xs) = True"
| "truthy (JObj kvs) = True"

text \<open>\<open>path.split('.')\<close>: always at least one part.\<close>

fun split_dot :: "string \<Rightarrow> string list" where
  "split_dot [] = [[]]"
| "split_dot (c # cs) =
     (if c = CHR ''.'' then [] # split_dot cs
      else (case split_dot cs of [] \<Rightarrow> [[c]] | part # parts \<Rightarrow> (c # part) # parts))"

text \<open>A canonical array index: decimal digits without a leading zero.\<close>

definition digit_of :: "char \<Rightarrow> nat option" where
  "digit_of c = (let n = of_char c :: nat in if 48 \<le> n \<and> n \<le> 57 then Some (n - 48) else None)"

fun digits_value :: "nat \<Rightarrow> string \<Rightarrow> nat option" where
  "digits_value acc [] = Some acc"
| "digits_value acc (c # cs) =
     (case digit_of c of None \<Rightarrow> None | Some d \<Rightarrow> digits_value (10 * acc + d) cs)"

definition array_index :: "string \<Rightarrow> nat option" where
  "array_index s =
     (if s = [] then None
      else if hd s = CHR ''0'' \<and> tl s \<noteq> [] then None
      else digits_value 0 s)"

text \<open>
  \<open>current[part]\<close>: the own properties are the keys of an object and the elements and
  \<open>length\<close> of an array or a string; every other name goes to the prototype chain.
  \<open>resolveContextPath\<close> never reads a property of \<open>undefined\<close> or \<open>null\<close>.
\<close>

fun get_prop :: "'w environment \<Rightarrow> 'w \<Rightarrow> jsval \<Rightarrow> string \<Rightarrow> jsval" where
  "get_prop env world (JObj kvs) part =
     (case map_of kvs part of Some v \<Rightarrow> v | None \<Rightarrow> inherited env world (JObj kvs) part)"
| "get_prop env world (JArr xs) part =
     (if part = ''length'' then JNum (int (length xs))
      else (case array_index part of
              Some i \<Rightarrow> if i < length xs then xs ! i else inherited env world (JArr xs) part
            | None \<Rightarrow> inherited env world (JArr xs) part))"
| "get_prop env world (JStr s) part =
     (if part = ''length'' then JNum (int (length s))
      else (case array_index part of
              Some i \<Rightarrow> if i < length s then JStr [s ! i] else inherited env world (JStr s) part
            | None \<Rightarrow> inherited env world (JStr s) part))"
| "get_prop env world JUndefined part = JUndefined"
| "get_prop env world JNull part = JUndefined"
| "get_prop env world v part = inherited env world v part"

definition context_value :: "WorkflowContext \<Rightarrow> jsval" where
  "context_value context =
     JObj [(''workflowId'', JStr (workflowId context)),
           (''executionId'', JStr (executionId context)),
           (''data'', JObj (data context)),
           (''variables'', JObj (variables context)),
           (''outputs'', JObj (outputs context)),
           (''metadata'', JObj (metadata context))]"

fun resolve_parts :: "'w environment \<Rightarrow> 'w \<Rightarrow> jsval \<Rightarrow> string list \<Rightarrow> jsval" where
  "resolve_parts env world current [] = current"
| "resolve_parts env world current (part # parts) =
     (if current = JUndefined \<or> current = JNull then JUndefined
      else resolve_parts env world (get_prop env world current part) parts)"

definition resolveContextPath ::
  "'w environment \<Rightarrow> string \<Rightarrow> WorkflowContext \<Rightarrow> 'w \<Rightarrow> jsval" where
  "resolveContextPath env path context world =
     resolve_parts env world (context_value context) (split_dot path)"

text \<open>\<open>{ ...a, ...b }\<close> and \<open>Object.assign(a, b)\<close>: the keys of \<open>b\<close> written over \<open>a\<close>.\<close>

definition spread :: "js_object \<Rightarrow> js_object \<Rightarrow> js_object" where
  "spread a b = fold (\<lambda>(k, v) acc. AList.update k v acc) b a"

text \<open>
  \<open>evaluateExpression\<close>: the \<open>catch\<close> block replaces whatever was thrown; what the
  expression wrote before is kept.
\<close>

definition evaluateExpression ::
  "'w environment \<Rightarrow> string \<Rightarrow> WorkflowContext \<Rightarrow> 'w \<Rightarrow> (thrown + jsval) \<times> WorkflowContext \<times> 'w"
where
  "evaluateExpression env expression context world =
     (case js_eval env expression (data context) (outputs context) (variables context) world of
        (outcome, data', outputs', variables', world') \<Rightarrow>
          ((case outcome of
              Inr v \<Rightarrow> Inr v
            | Inl e \<Rightarrow>
                Inl (ThrowError (Error (''Failed to evaluate expression: '' @ expression)))),
           context\<lparr>data := data', outputs := outputs', variables := variables'\<rparr>,
           world'))"

subsection \<open>The node types the executor handles itself\<close>

definition executeCondition ::
  "'w environment \<Rightarrow> string \<Rightarrow> WorkflowContext \<Rightarrow> 'w \<Rightarrow> (thrown + jsval) \<times> WorkflowContext \<times> 'w"
where
  "executeCondition env condition context world =
     (case evaluateExpression env condition context world of
        (Inl e, context', world') \<Rightarrow> (Inl e, context', world')
      | (Inr result, context', world') \<Rightarrow>
          (Inr (JObj [(''condition'', JStr condition),
                      (''result'', JBool (truthy result)),
                      (''branch'', JStr (if truthy result then ''true'' else ''false''))]),
           context', world'))"

text \<open>
  The \<open>for\<close> loop of \<open>executeLoop\<close>. Each round also builds an \<open>iterationContext\<close>
  (\<open>context\<close> with \<open>$iteration\<close> and \<open>$item\<close> added to a copy of \<open>data\<close>) that nothing
  reads afterwards; the round's only effect is the entry pushed on \<open>results\<close>.

  \<open>maxIterations\<close> is a JavaScript number, here a rational: the counter \<open>i\<close> runs over the
  integers below \<open>iterations\<close>, so a bound of \<open>1.5\<close> gives two rounds. \<open>NaN\<close> is falsy
  and the minimum with \<open>Infinity\<close> is the length, so both act as an absent bound;
  \<open>-Infinity\<close> acts as a negative one.
\<close>

function loopRounds :: "jsval list \<Rightarrow> rat \<Rightarrow> int \<Rightarrow> jsval list \<Rightarrow> jsval list" where
  "loopRounds iterationData iterations i results =
     (if of_int i < iterations then
        loopRounds iterationData iterations (i + 1)
          (results @ [JObj [(''iteration'', JNum i),
                            (''item'', if 0 \<le> i \<and> nat i < length iterationData
                                       then iterationData ! nat i else JUndefined)]])
      else results)"
  by pat_completeness auto
termination
proof (relation "measure (\<lambda>(iterationData, iterations, i, results). nat (\<lceil>iterations\<rceil> - i))",
       goal_cases)
  case 1
  show ?case by simp
next
  case (2 iterationData iterations i results)
  then have "i < \<lceil>iterations\<rceil>" by (simp add: less_ceiling_iff)
  then show ?case by simp
qed

declare loopRounds.simps [simp del]

definition executeLoop ::
  "'w environment \<Rightarrow> string \<Rightarrow> rat option \<Rightarrow> WorkflowContext \<Rightarrow> 'w \<Rightarrow> thrown + jsval" where
  "executeLoop env iterationSource maxIterations_opt context world =
     (case resolveContextPath env iterationSource context world of
        JArr iterationData \<Rightarrow>
          (let len = of_int (int (length iterationData));
               maxIterations = (case maxIterations_opt of
                                  None \<Rightarrow> len
                                | Some m \<Rightarrow> if m = 0 then len else m);
               iterations = min len maxIterations;
               results = loopRounds iterationData iterations 0 []
           in Inr (JObj [(''iterations'', JNum (int (length results))),
                         (''results'', JArr results)]))
      | _ \<Rightarrow> Inl (ThrowError (Error (''Loop iteration source must be an array: '' @ iterationSource))))"

definition executeContextInjection ::
  "js_object \<Rightarrow> bool \<Rightarrow> WorkflowContext \<Rightarrow> jsval \<times> WorkflowContext" where
  "executeContextInjection injections merge context =
     (JObj [(''injected'', JArr (map (\<lambda>(k, v). JStr k) injections))],
      if merge then context\<lparr>data := spread (data context) injections\<rparr>
      else context\<lparr>data := spread [] injections\<rparr>)"

definition executeNestedWorkflow :: "thrown + jsval" where
  "executeNestedWorkflow = Inl (ThrowError (Error ''Nested workflows not yet implemented''))"

definition executeParallel :: "string list \<Rightarrow> bool \<Rightarrow> jsval" where
  "executeParallel childNodes waitForAll =
     JObj [(''childNodes'', JArr (map JStr childNodes)), (''waitForAll'', JBool waitForAll)]"

text \<open>
  \<open>NodeExecutor.execute\<close>: what the call returned or threw, the context and the world
  afterwards, and the milliseconds it took (none for the node types computed in place).
\<close>

definition execute ::
  "'w environment \<Rightarrow> NodeConfig \<Rightarrow> WorkflowContext \<Rightarrow> 'w
     \<Rightarrow> (thrown + jsval) \<times> WorkflowContext \<times> 'w \<times> int" where
  "execute env node context world =
     (case kind node of
        ConditionNode condition trueBranch falseBranch \<Rightarrow>
          (case executeCondition env condition context world of
             (outcome, context', world') \<Rightarrow> (outcome, context', world', 0))
      | LoopNode iterationSource childNodes maxIterations_opt \<Rightarrow>
          (executeLoop env iterationSource maxIterations_opt context world, context, world, 0)
      | ContextInjectionNode injections merge \<Rightarrow>
          (case executeContextInjection injections merge context of
             (out, context') \<Rightarrow> (Inr out, context', world, 0))
      | NestedWorkflowNode child_id \<Rightarrow> (executeNestedWorkflow, context, world, 0)
      | ParallelNode childNodes waitForAll \<Rightarrow>
          (Inr (executeParallel childNodes waitForAll), context, world, 0)
      | ExternalNode t \<Rightarrow> external env node context world)"

section \<open>Workflow engine (engine/workflowEngine.ts)\<close>

subsection \<open>Validation\<close>

fun checkDuplicateIds :: "NodeConfig list \<Rightarrow> string set \<Rightarrow> js_error + string set" where
  "checkDuplicateIds [] nodeIds = Inr nodeIds"
| "checkDuplicateIds (node # rest) nodeIds =
     (if node_id node \<in> nodeIds then Inl (Error (''Duplicate node ID: '' @ node_id node))
      else checkDuplicateIds rest (insert (node_id node) nodeIds))"

fun checkNodeDependencies :: "string set \<Rightarrow> string \<Rightarrow> string list \<Rightarrow> js_error option" where
  "checkNodeDependencies nodeIds nid [] = None"
| "checkNodeDependencies nodeIds nid (depId # rest) =
     (if depId \<notin> nodeIds
      then Some (Error (''Node '' @ nid @ '' has invalid dependency: '' @ depId))
      else checkNodeDependencies nodeIds nid rest)"

fun checkDependencyIds :: "string set \<Rightarrow> NodeConfig list \<Rightarrow> js_error option" where
  "checkDependencyIds nodeIds [] = None"
| "checkDependencyIds nodeIds (node # rest) =
     (case checkNodeDependencies nodeIds (node_id node) (dependencies node) of
        Some e \<Rightarrow> Some e
      | None \<Rightarrow> checkDependencyIds nodeIds rest)"

fun checkEntryNodes :: "string set \<Rightarrow> string list \<Rightarrow> js_error option" where
  "checkEntryNodes nodeIds [] = None"
| "checkEntryNodes nodeIds (entryId # rest) =
     (if entryId \<notin> nodeIds then Some (Error (''Invalid entry node: '' @ entryId))
      else checkEntryNodes nodeIds rest)"

subsection \<open>Cycle detection\<close>

text \<open>
  \<open>detectCycle\<close> keeps a \<open>Map\<close> from each node id to its dependencies and two sets,
  \<open>visited\<close> and \<open>recStack\<close>, which the recursion updates in place; here they are passed
  along and returned. \<open>hasCycleLoop\<close> is the \<open>for\<close> loop over the neighbours inside
  \<open>hasCycleUtil\<close>.
\<close>

type_synonym cycle_graph = "(string \<times> string list) list"

definition neighbors :: "cycle_graph \<Rightarrow> string \<Rightarrow> string list" where
  "neighbors graph nodeId = (case map_of graph nodeId of Some ds \<Rightarrow> ds | None \<Rightarrow> [])"

definition graph_nodes :: "cycle_graph \<Rightarrow> string set" where
  "graph_nodes graph = fst ` set graph \<union> (\<Union>ds \<in> snd ` set graph. set ds)"

function hasCycleUtil ::
    "cycle_graph \<Rightarrow> string \<Rightarrow> string set \<times> string set \<Rightarrow> bool \<times> string set \<times> string set"
  and hasCycleLoop ::
    "cycle_graph \<Rightarrow> string list \<Rightarrow> string set \<times> string set \<Rightarrow> bool \<times> string set \<times> string set"
where
  "hasCycleUtil graph nodeId (visited, recStack) =
     (case hasCycleLoop graph (neighbors graph nodeId)
             (insert nodeId visited, insert nodeId recStack) of
        (found, visited', recStack') \<Rightarrow>
          if found then (True, visited', recStack')
          else (False, visited', recStack' - {nodeId}))"
| "hasCycleLoop graph [] (visited, recStack) = (False, visited, recStack)"
| "hasCycleLoop graph (neighbor # rest) (visited, recStack) =
     (if neighbor \<notin> visited then
        (case hasCycleUtil graph neighbor (visited, recStack) of
           (found, visited', recStack') \<Rightarrow>
             if found then (True, visited', recStack')
             else hasCycleLoop graph rest (visited', recStack'))
      else if neighbor \<in> recStack then (True, visited, recStack)
      else hasCycleLoop graph rest (visited, recStack))"
  by pat_completeness auto

lemma hasCycle_visited_mono_dom:
  "hasCycleUtil_hasCycleLoop_dom (Inl (graph, nodeId, st)) \<Longrightarrow>
     fst st \<subseteq> fst (snd (hasCycleUtil graph nodeId st))"
  "hasCycleUtil_hasCycleLoop_dom (Inr (graph, ns, st)) \<Longrightarrow>
     fst st \<subseteq> fst (snd (hasCycleLoop graph ns st))"
proof (induction graph nodeId st and graph ns st rule: hasCycleUtil_hasCycleLoop.pinduct)
  case (1 graph nodeId visited recStack)
  then show ?case by (auto simp: hasCycleUtil.psimps split: prod.splits)
next
  case (2 graph visited recStack)
  then show ?case by (simp add: hasCycleLoop.psimps)
next
  case (3 graph neighbor rest visited recStack)
  note dom = "3.hyps"(1)
  show ?case
  proof (cases "neighbor \<in> visited")
    case True
    with 3 show ?thesis by (auto simp: hasCycleLoop.psimps)
  next
    case False
    obtain found v' r' where r: "hasCycleUtil graph neighbor (visited, recStack) = (found, v', r')"
      by (cases "hasCycleUtil graph neighbor (visited, recStack)")
    from "3.IH"(1)[OF False] r have m1: "visited \<subseteq> v'" by simp
    show ?thesis
    proof (cases found)
      case True
      with False r m1 dom show ?thesis by (simp add: hasCycleLoop.psimps)
    next
      case nf: False
      from "3.IH"(2)[OF False r[symmetric] refl nf]
      have "v' \<subseteq> fst (snd (hasCycleLoop graph rest (v', r')))" by simp
      with False r m1 nf dom show ?thesis by (auto simp add: hasCycleLoop.psimps)
    qed
  qed
qed

termination hasCycleUtil
proof (relation "inv_image (less_than <*lex*> less_than)
    (\<lambda>x. case x of
        Inl (graph, nodeId, visited, recStack) \<Rightarrow>
          (card (graph_nodes graph - insert nodeId visited),
           2 * length (neighbors graph nodeId) + 1)
      | Inr (graph, ns, visited, recStack) \<Rightarrow>
          (card (graph_nodes graph - visited), 2 * length ns))", goal_cases)
  case 1
  show ?case by (intro wf_inv_image wf_lex_prod wf_less_than)
next
  case (2 graph nodeId visited recStack)
  show ?case by simp
next
  case (3 graph neighbor rest visited recStack)
  have fin: "finite (graph_nodes graph - visited)"
    by (simp add: graph_nodes_def)
  show ?case
  proof (cases "neighbor \<in> graph_nodes graph")
    case True
    with 3 have "graph_nodes graph - insert neighbor visited \<subset> graph_nodes graph - visited"
      by auto
    with fin have "card (graph_nodes graph - insert neighbor visited)
                   < card (graph_nodes graph - visited)"
      by (rule psubset_card_mono)
    then show ?thesis by simp
  next
    case False
    then have "neighbors graph neighbor = []"
      by (auto simp: neighbors_def graph_nodes_def split: option.splits
               dest!: map_of_SomeD intro: rev_image_eqI)
    moreover from False
    have "graph_nodes graph - insert neighbor visited = graph_nodes graph - visited"
      by auto
    ultimately show ?thesis by simp
  qed
next
  case (4 graph neighbor rest visited recStack found y visited' recStack')
  then have "visited \<subseteq> visited'"
    using hasCycle_visited_mono_dom(1)[of graph neighbor "(visited, recStack)"]
    by (metis fst_conv snd_conv)
  moreover have "finite (graph_nodes graph - visited)"
    by (simp add: graph_nodes_def)
  ultimately have "card (graph_nodes graph - visited') \<le> card (graph_nodes graph - visited)"
    by (intro card_mono) auto
  then show ?case by auto
next
  case (5 graph neighbor rest visited recStack)
  show ?case by simp
qed

declare hasCycleUtil.simps [simp del] hasCycleLoop.simps [simp del]

text \<open>The outer loop of \<open>detectCycle\<close> over \<open>graph.keys()\<close>.\<close>

fun detectCycleKeys ::
  "cycle_graph \<Rightarrow> string list \<Rightarrow> string set \<times> string set \<Rightarrow> bool \<times> string set \<times> string set"
where
  "detectCycleKeys graph [] (visited, recStack) = (False, visited, recStack)"
| "detectCycleKeys graph (nodeId # rest) (visited, recStack) =
     (if nodeId \<notin> visited then
        (case hasCycleUtil graph nodeId (visited, recStack) of
           (found, visited', recStack') \<Rightarrow>
             if found then (True, visited', recStack')
             else detectCycleKeys graph rest (visited', recStack'))
      else detectCycleKeys graph rest (visited, recStack))"

definition cycleGraph :: "NodeConfig list \<Rightarrow> cycle_graph" where
  "cycleGraph ns = fold (\<lambda>node graph. AList.update (node_id node) (dependencies node) graph) ns []"

definition detectCycle :: "NodeConfig list \<Rightarrow> bool" where
  "detectCycle ns =
     (let graph = cycleGraph ns in fst (detectCycleKeys graph (map fst graph) ({}, {})))"

definition validateWorkflow :: "WorkflowDefinition \<Rightarrow> js_error + unit" where
  "validateWorkflow workflow =
     (case checkDuplicateIds (nodes workflow) {} of
        Inl e \<Rightarrow> Inl e
      | Inr nodeIds \<Rightarrow>
          (case checkDependencyIds nodeIds (nodes workflow) of
             Some e \<Rightarrow> Inl e
           | None \<Rightarrow>
               if detectCycle (nodes workflow)
               then Inl (Error ''Workflow contains circular dependencies'')
               else (case checkEntryNodes nodeIds (entryNodes workflow) of
                       Some e \<Rightarrow> Inl e
                     | None \<Rightarrow> Inr ())))"

subsection \<open>Dependency graph and execution order\<close>

text \<open>
  \<open>buildDependencyGraph\<close> fills a \<open>Map\<close> from each node id to the \<open>Set\<close> of the nodes
  that depend on it. A \<open>Set\<close> is a list without repetition in insertion order.
\<close>

definition set_add :: "string list \<Rightarrow> string \<Rightarrow> string list" where
  "set_add xs x = (if x \<in> set xs then xs else xs @ [x])"

definition ensure_key :: "cycle_graph \<Rightarrow> string \<Rightarrow> cycle_graph" where
  "ensure_key graph k = (if k \<in> fst ` set graph then graph else graph @ [(k, [])])"

fun addDependents :: "cycle_graph \<Rightarrow> string \<Rightarrow> string list \<Rightarrow> cycle_graph" where
  "addDependents graph nid [] = graph"
| "addDependents graph nid (depId # rest) =
     addDependents (AList.map_entry depId (\<lambda>dependents. set_add dependents nid)
                      (ensure_key graph depId)) nid rest"

fun buildGraphFrom :: "cycle_graph \<Rightarrow> NodeConfig list \<Rightarrow> cycle_graph" where
  "buildGraphFrom graph [] = graph"
| "buildGraphFrom graph (node # rest) =
     buildGraphFrom
       (addDependents (ensure_key graph (node_id node)) (node_id node) (dependencies node)) rest"

definition buildDependencyGraph :: "NodeConfig list \<Rightarrow> cycle_graph" where
  "buildDependencyGraph ns = buildGraphFrom [] ns"

text \<open>
  \<open>topologicalSort\<close>: the closure \<open>visit\<close> with its three variables \<open>result\<close>,
  \<open>visited\<close> and \<open>temp\<close> passed along; \<open>visitAll\<close> is the \<open>for\<close> loop inside \<open>visit\<close>.
\<close>

type_synonym sort_state = "string list \<times> string set \<times> string set"

function visit :: "cycle_graph \<Rightarrow> string \<Rightarrow> sort_state \<Rightarrow> js_error + sort_state"
  and visitAll :: "cycle_graph \<Rightarrow> string list \<Rightarrow> sort_state \<Rightarrow> js_error + sort_state"
where
  "visit graph nodeId (result, visited, temp) =
     (if nodeId \<in> temp then Inl (Error ''Circular dependency detected'')
      else if nodeId \<in> visited then Inr (result, visited, temp)
      else (case visitAll graph (neighbors graph nodeId) (result, visited, insert nodeId temp) of
              Inl e \<Rightarrow> Inl e
            | Inr (result', visited', temp') \<Rightarrow>
                Inr (result' @ [nodeId], insert nodeId visited', temp' - {nodeId})))"
| "visitAll graph [] st = Inr st"
| "visitAll graph (depId # rest) st =
     (case visit graph depId st of
        Inl e \<Rightarrow> Inl e
      | Inr st' \<Rightarrow> visitAll graph rest st')"
  by pat_completeness auto

lemma visit_marked_mono_dom:
  "visit_visitAll_dom (Inl (graph, nodeId, st)) \<Longrightarrow> visit graph nodeId st = Inr st' \<Longrightarrow>
     fst (snd st) \<union> snd (snd st) \<subseteq> fst (snd st') \<union> snd (snd st')"
  "visit_visitAll_dom (Inr (graph, ns, st)) \<Longrightarrow> visitAll graph ns st = Inr st' \<Longrightarrow>
     fst (snd st) \<union> snd (snd st) \<subseteq> fst (snd st') \<union> snd (snd st')"
proof (induction graph nodeId st and graph ns st arbitrary: st' and st'
       rule: visit_visitAll.pinduct)
  case (1 graph nodeId result visited temp)
  show ?case
  proof (cases "nodeId \<in> temp \<or> nodeId \<in> visited")
    case True
    with "1.prems" "1.hyps" show ?thesis
      by (auto simp: visit.psimps split: if_splits)
  next
    case False
    then have nt: "nodeId \<notin> temp" and nv: "nodeId \<notin> visited" by auto
    from "1.prems" "1.hyps" nt nv obtain r1 v1 t1 where
      inner: "visitAll graph (neighbors graph nodeId) (result, visited, insert nodeId temp)
                = Inr (r1, v1, t1)"
      and st': "st' = (r1 @ [nodeId], insert nodeId v1, t1 - {nodeId})"
      by (auto simp: visit.psimps split: sum.splits)
    from "1.IH"[OF nt nv inner] have "visited \<union> insert nodeId temp \<subseteq> v1 \<union> t1" by simp
    with st' show ?thesis by auto
  qed
next
  case (2 graph st)
  then show ?case by (simp add: visitAll.psimps)
next
  case (3 graph depId rest st)
  from "3.prems" "3.hyps" obtain st1 where
    first: "visit graph depId st = Inr st1" and more: "visitAll graph rest st1 = Inr st'"
    by (auto simp: visitAll.psimps split: sum.splits)
  from "3.IH"(1)[OF first] "3.IH"(2)[OF first more] show ?case by blast
qed

termination visit
proof (relation "inv_image (less_than <*lex*> less_than)
    (\<lambda>x. case x of
        Inl (graph, nodeId, result, visited, temp) \<Rightarrow>
          (if nodeId \<in> visited \<union> temp then (card (graph_nodes graph - (visited \<union> temp)), 0)
           else (card (graph_nodes graph - insert nodeId (visited \<union> temp)),
                 2 * length (neighbors graph nodeId) + 1))
      | Inr (graph, ns, result, visited, temp) \<Rightarrow>
          (card (graph_nodes graph - (visited \<union> temp)), 2 * length ns))", goal_cases)
  case 1
  show ?case by (intro wf_inv_image wf_lex_prod wf_less_than)
next
  case (2 graph nodeId result visited temp)
  then show ?case by simp
next
  case (3 graph depId rest st)
  obtain result visited temp where st: "st = (result, visited, temp)"
    by (cases st)
  have fin: "finite (graph_nodes graph - (visited \<union> temp))"
    by (simp add: graph_nodes_def)
  show ?case
  proof (cases "depId \<in> visited \<union> temp")
    case True
    with st show ?thesis by simp
  next
    case unmarked: False
    show ?thesis
    proof (cases "depId \<in> graph_nodes graph")
      case True
      with unmarked have "graph_nodes graph - insert depId (visited \<union> temp)
                          \<subset> graph_nodes graph - (visited \<union> temp)"
        by auto
      with fin have "card (graph_nodes graph - insert depId (visited \<union> temp))
                     < card (graph_nodes graph - (visited \<union> temp))"
        by (rule psubset_card_mono)
      with st unmarked show ?thesis by simp
    next
      case False
      then have "neighbors graph depId = []"
        by (auto simp: neighbors_def graph_nodes_def split: option.splits
                 dest!: map_of_SomeD intro: rev_image_eqI)
      moreover from False
      have "graph_nodes graph - insert depId (visited \<union> temp)
            = graph_nodes graph - (visited \<union> temp)"
        by auto
      ultimately show ?thesis using st unmarked by simp
    qed
  qed
next
  case (4 graph depId rest st st1)
  obtain result visited temp where st: "st = (result, visited, temp)"
    by (cases st)
  obtain r1 v1 t1 where st1: "st1 = (r1, v1, t1)"
    by (cases st1)
  from 4 have "visited \<union> temp \<subseteq> v1 \<union> t1"
    using visit_marked_mono_dom(1)[of graph depId st st1] st st1 by simp
  moreover have "finite (graph_nodes graph - (visited \<union> temp))"
    by (simp add: graph_nodes_def)
  ultimately have "card (graph_nodes graph - (v1 \<union> t1))
                   \<le> card (graph_nodes graph - (visited \<union> temp))"
    by (intro card_mono) auto
  with st st1 show ?case by auto
qed

declare visit.simps [simp del] visitAll.simps [simp del]

text \<open>The outer loop of \<open>topologicalSort\<close> over \<open>graph.keys()\<close>.\<close>

fun visitKeys :: "cycle_graph \<Rightarrow> string list \<Rightarrow> sort_state \<Rightarrow> js_error + sort_state" where
  "visitKeys graph [] st = Inr st"
| "visitKeys graph (nodeId # rest) (result, visited, temp) =
     (if nodeId \<notin> visited then
        (case visit graph nodeId (result, visited, temp) of
           Inl e \<Rightarrow> Inl e
         | Inr st' \<Rightarrow> visitKeys graph rest st')
      else visitKeys graph rest (result, visited, temp))"

definition topologicalSort :: "cycle_graph \<Rightarrow> js_error + string list" where
  "topologicalSort graph =
     (case visitKeys graph (map fst graph) ([], {}, {}) of
        Inl e \<Rightarrow> Inl e
      | Inr (result, visited, temp) \<Rightarrow> Inr (rev result))"

subsection \<open>Running one node\<close>

text \<open>\<open>error instanceof Error ? error : new Error(String(error))\<close>.\<close>

fun toError :: "thrown \<Rightarrow> js_error" where
  "toError (ThrowError e) = e"
| "toError (ThrowOther s) = Error s"

definition calculateBackoff :: "nat \<Rightarrow> int \<Rightarrow> backoff_kind \<Rightarrow> int" where
  "calculateBackoff attempt delay kind_of_backoff =
     (if kind_of_backoff = Exponential then delay * 2 ^ (attempt - 1)
      else delay * int attempt)"

definition applyOverrides :: "WorkflowContext \<Rightarrow> js_object option \<Rightarrow> WorkflowContext" where
  "applyOverrides context ov =
     (case ov of
        None \<Rightarrow> context
      | Some extra \<Rightarrow> context\<lparr>data := spread (data context) extra\<rparr>)"

text \<open>
  \<open>executeWithTimeout\<close>: without a timeout (absent or \<open>0\<close>) the call's own outcome;
  otherwise the call races a timer, and a call that takes at least the timer's delay
  (never less than one millisecond) loses to \<open>Error('Execution timeout')\<close>. The call
  itself is not interrupted: its effects on the context and the world stay.
\<close>

definition executeWithTimeout ::
  "(thrown + jsval) \<times> WorkflowContext \<times> 'w \<times> int \<Rightarrow> int option
     \<Rightarrow> (thrown + jsval) \<times> WorkflowContext \<times> 'w" where
  "executeWithTimeout call limit =
     (case call of
        (outcome, context', world', elapsed) \<Rightarrow>
          (case limit of
             None \<Rightarrow> (outcome, context', world')
           | Some ms \<Rightarrow>
               if ms = 0 then (outcome, context', world')
               else if max 1 ms \<le> elapsed
                 then (Inl (ThrowError (Error ''Execution timeout'')), context', world')
               else (outcome, context', world')))"

text \<open>The \<open>try\<close> block of one attempt: the abort check, then the call under its timeout.\<close>

definition attempt ::
  "'w environment \<Rightarrow> NodeConfig \<Rightarrow> WorkflowContext \<Rightarrow> 'w
     \<Rightarrow> (thrown + jsval) \<times> WorkflowContext \<times> 'w" where
  "attempt env node nodeContext world =
     (if aborted env world
      then (Inl (ThrowError (Error ''Execution aborted'')), nodeContext, world)
      else executeWithTimeout (execute env node nodeContext world) (timeout node))"

definition failedResult :: "NodeConfig \<Rightarrow> js_error option \<Rightarrow> nat \<Rightarrow> NodeExecutionResult" where
  "failedResult node lastError made =
     \<lparr>result_nodeId = node_id node, status = FAILED, output_value = JUndefined,
      error = lastError, attempts = made\<rparr>"

text \<open>
  The \<open>while (attempts < maxAttempts)\<close> loop of \<open>executeNode\<close>; \<open>made\<close> is the counter
  \<open>attempts\<close>.
\<close>

function retryLoop ::
  "'w environment \<Rightarrow> NodeConfig \<Rightarrow> int \<Rightarrow> int \<Rightarrow> backoff_kind \<Rightarrow> nat \<Rightarrow> js_error option
     \<Rightarrow> WorkflowContext \<Rightarrow> 'w \<Rightarrow> NodeExecutionResult \<times> WorkflowContext \<times> 'w" where
  "retryLoop env node limit delay kind_of_backoff made lastError nodeContext world =
     (if int made < limit then
        (case attempt env node nodeContext world of
           (Inr out, nodeContext', world') \<Rightarrow>
             (\<lparr>result_nodeId = node_id node, status = SUCCESS, output_value = out,
               error = None, attempts = Suc made\<rparr>, nodeContext', world')
         | (Inl e, nodeContext', world') \<Rightarrow>
             if int (Suc made) < limit then
               retryLoop env node limit delay kind_of_backoff (Suc made) (Some (toError e))
                 nodeContext'
                 (sleep env (calculateBackoff (Suc made) delay kind_of_backoff) world')
             else (failedResult node (Some (toError e)) (Suc made), nodeContext', world'))
      else (failedResult node lastError made, nodeContext, world))"
  by pat_completeness auto
termination
  by (relation "measure (\<lambda>(env, node, limit, delay, kind_of_backoff, made, rest).
                   nat (limit - int made))") auto

declare retryLoop.simps [simp del]

text \<open>
  \<open>executeNode\<close>. With overrides the node runs on a copy of the context that has its own
  \<open>data\<close> object and shares \<open>variables\<close>, \<open>outputs\<close> and \<open>metadata\<close> with the caller's
  context; without overrides it runs on the caller's context itself.
\<close>

definition executeNode ::
  "'w environment \<Rightarrow> NodeConfig \<Rightarrow> WorkflowContext \<Rightarrow> 'w
     \<Rightarrow> NodeExecutionResult \<times> WorkflowContext \<times> 'w" where
  "executeNode env node context world =
     (let nodeContext = applyOverrides context (overrides node);
          limit = (case retryPolicy node of
                     None \<Rightarrow> 1
                   | Some policy \<Rightarrow> if maxAttempts policy = 0 then 1 else maxAttempts policy);
          delay = (case retryPolicy node of
                     None \<Rightarrow> 1000
                   | Some policy \<Rightarrow> if initialDelay policy = 0 then 1000 else initialDelay policy);
          kind_of_backoff = (case retryPolicy node of
                               None \<Rightarrow> Linear
                             | Some policy \<Rightarrow> backoff policy)
      in case retryLoop env node limit delay kind_of_backoff 0 None nodeContext world of
           (result, nodeContext', world') \<Rightarrow>
             (result,
              (case overrides node of
                 None \<Rightarrow> nodeContext'
               | Some extra \<Rightarrow> context\<lparr>variables := variables nodeContext',
                                    outputs := outputs nodeContext',
                                    metadata := metadata nodeContext'\<rparr>),
              world'))"

subsection \<open>Running a workflow\<close>

fun checkDependencies :: "string list \<Rightarrow> node_results \<Rightarrow> bool" where
  "checkDependencies [] results = True"
| "checkDependencies (depId # rest) results =
     (case map_of results depId of
        None \<Rightarrow> False
      | Some depResult \<Rightarrow>
          if status depResult \<noteq> SUCCESS then False else checkDependencies rest results)"

definition skippedResult :: "string \<Rightarrow> NodeExecutionResult" where
  "skippedResult nid =
     \<lparr>result_nodeId = nid, status = SKIPPED, output_value = JUndefined,
      error = None, attempts = 0\<rparr>"

text \<open>
  The variables the node loop of \<open>executeWorkflow\<close> updates: \<open>status\<close>, \<open>nodeResults\<close>,
  the context, and the world.
\<close>

record 'w run_state =
  run_status :: workflow_status
  run_results :: node_results
  run_context :: WorkflowContext
  run_world :: 'w

fun runNodes ::
  "'w environment \<Rightarrow> WorkflowDefinition \<Rightarrow> string list \<Rightarrow> 'w run_state \<Rightarrow> 'w run_state" where
  "runNodes env workflow [] st = st"
| "runNodes env workflow (nid # rest) st =
     (if aborted env (run_world st) then st\<lparr>run_status := Partial\<rparr>
      else (case find (\<lambda>n. node_id n = nid) (nodes workflow) of
              None \<Rightarrow> runNodes env workflow rest st
            | Some node \<Rightarrow>
                if \<not> checkDependencies (dependencies node) (run_results st) then
                  runNodes env workflow rest
                    (st\<lparr>run_results := AList.update nid (skippedResult nid) (run_results st)\<rparr>)
                else
                  (case executeNode env node (run_context st) (run_world st) of
                     (result, context', world') \<Rightarrow>
                       runNodes env workflow rest
                         \<lparr>run_status =
                            (if status result = FAILED then Failed else run_status st),
                          run_results = AList.update nid result (run_results st),
                          run_context =
                            (if output_value result \<noteq> JUndefined
                             then context'\<lparr>outputs :=
                                    AList.update nid (output_value result) (outputs context')\<rparr>
                             else context'),
                          run_world = world'\<rparr>)))"

text \<open>
  \<open>executeWorkflow\<close>. \<open>execId\<close> is the fresh \<open>uuidv4()\<close>. The \<open>catch\<close> block turns an
  error thrown by validation or by the sort into the status \<open>failed\<close>; the function
  then returns its result as on every other path. Events and clock readings (among them
  \<open>metadata.startTime\<close>) are left out.
\<close>

definition createContext :: "WorkflowDefinition \<Rightarrow> js_object \<Rightarrow> string \<Rightarrow> WorkflowContext" where
  "createContext workflow initialContext execId =
     \<lparr>workflowId = wf_id workflow, executionId = execId,
      data = spread [] initialContext, variables = [], outputs = [],
      metadata = [(''workflowName'', JStr (wf_name workflow)),
                  (''workflowVersion'', JStr (wf_version workflow))]\<rparr>"

definition startState ::
  "WorkflowDefinition \<Rightarrow> js_object \<Rightarrow> string \<Rightarrow> 'w \<Rightarrow> 'w run_state" where
  "startState workflow initialContext execId world =
     \<lparr>run_status = Success, run_results = [],
      run_context = createContext workflow initialContext execId, run_world = world\<rparr>"

definition executeWorkflow ::
  "'w environment \<Rightarrow> WorkflowDefinition \<Rightarrow> js_object \<Rightarrow> string \<Rightarrow> 'w
     \<Rightarrow> 'w WorkflowExecutionResult" where
  "executeWorkflow env workflow initialContext execId world =
     (let start = startState workflow initialContext execId world;
          final =
            (case validateWorkflow workflow of
               Inl e \<Rightarrow> start\<lparr>run_status := Failed\<rparr>
             | Inr u \<Rightarrow>
                 (case topologicalSort (buildDependencyGraph (nodes workflow)) of
                    Inl e \<Rightarrow> start\<lparr>run_status := Failed\<rparr>
                  | Inr executionOrder \<Rightarrow> runNodes env workflow executionOrder start))
      in \<lparr>res_workflowId = wf_id workflow, res_executionId = execId,
          res_status = run_status final, nodeResults = run_results final,
          res_context = run_context final, res_world = run_world final\<rparr>)"

section \<open>Vocabulary of the properties\<close>

text \<open>
  The dependency relation of a workflow: an edge from each dependency to the node that
  declares it. A workflow has a dependency cycle when this relation is not \<open>acyclic\<close>.
\<close>

definition dependencyEdges :: "NodeConfig list \<Rightarrow> (string \<times> string) set" where
  "dependencyEdges ns = {(d, node_id n) | n d. n \<in> set ns \<and> d \<in> set (dependencies n)}"

text \<open>The edges a graph \<open>Map\<close> stores: from each key to the members of its value.\<close>

definition graphEdges :: "cycle_graph \<Rightarrow> (string \<times> string) set" where
  "graphEdges graph = {(n, d). d \<in> set (neighbors graph n)}"

text \<open>
  The invariant of the search in \<open>detectCycle\<close>: the finished nodes (visited and no
  longer on the recursion stack) are closed under the edges and lie on no cycle.
\<close>

definition dfs_inv :: "cycle_graph \<Rightarrow> string set \<Rightarrow> string set \<Rightarrow> bool" where
  "dfs_inv graph visited recStack \<longleftrightarrow>
     recStack \<subseteq> visited \<and>
     (\<forall>b \<in> visited - recStack. set (neighbors graph b) \<subseteq> visited - recStack) \<and>
     (\<forall>b \<in> visited - recStack. (b, b) \<notin> (graphEdges graph)\<^sup>+)"

text \<open>\<open>comesBefore a b order\<close>: \<open>a\<close> occurs in \<open>order\<close> and \<open>b\<close> occurs after its first occurrence.\<close>

definition comesBefore :: "string \<Rightarrow> string \<Rightarrow> string list \<Rightarrow> bool" where
  "comesBefore a b order = (b \<in> set (drop 1 (dropWhile (\<lambda>x. x \<noteq> a) order)))"

text \<open>
  The invariant of \<open>topologicalSort\<close>: \<open>result\<close> lists the visited nodes once each,
  no visited node is on the \<open>temp\<close> stack, and every node of \<open>result\<close> comes after all
  the nodes its entry in the graph names.
\<close>

definition sort_inv :: "cycle_graph \<Rightarrow> sort_state \<Rightarrow> bool" where
  "sort_inv graph st \<longleftrightarrow>
     (case st of (result, visited, temp) \<Rightarrow>
        set result = visited \<and> distinct result \<and> visited \<inter> temp = {} \<and>
        (\<forall>pre v post. result = pre @ v # post \<longrightarrow> set (neighbors graph v) \<subseteq> set pre))"


subsection \<open>Concrete inputs\<close>

text \<open>
  A world that is a single flag, the abort signal; collaborators that return \<open>'done'\<close> at
  once, an expression evaluator that answers \<open>true\<close> and writes nothing, and a
  prototype chain that holds nothing.
\<close>

definition demo_env :: "bool environment" where
  "demo_env = \<lparr>js_eval = (\<lambda>expression d outs v world. (Inr (JBool True), d, outs, v, world)),
               inherited = (\<lambda>world v part. JUndefined),
               external = (\<lambda>node context world. (Inr (JStr ''done''), context, world, 0)),
               sleep = (\<lambda>ms world. world),
               aborted = (\<lambda>world. world)\<rparr>"

text \<open>Collaborators that always throw, the n-th message being the world's counter.\<close>

definition failing_env :: "nat environment" where
  "failing_env = \<lparr>js_eval = (\<lambda>expression d outs v world. (Inr (JBool True), d, outs, v, world)),
               inherited = (\<lambda>world v part. JUndefined),
                  external = (\<lambda>node context world.
                     (Inl (ThrowError (Error (replicate (Suc world) CHR ''x''))),
                      context, Suc world, 0)),
                  sleep = (\<lambda>ms world. world),
                  aborted = (\<lambda>world. False)\<rparr>"

definition demo_node :: "string \<Rightarrow> string list \<Rightarrow> node_kind \<Rightarrow> NodeConfig" where
  "demo_node nid deps k =
     \<lparr>node_id = nid, node_name = nid, dependencies = deps, retryPolicy = None,
      timeout = None, overrides = None, kind = k\<rparr>"

definition demo_context :: WorkflowContext where
  "demo_context = \<lparr>workflowId = ''wf'', executionId = ''run'',
                    data = [(''items'', JArr [JStr ''a'', JStr ''b''])],
                    variables = [], outputs = [], metadata = []\<rparr>"

definition demo_workflow :: "NodeConfig list \<Rightarrow> WorkflowDefinition" where
  "demo_workflow ns =
     \<lparr>wf_id = ''wf'', wf_name = ''demo'', wf_version = ''1.0.0'', nodes = ns, entryNodes = []\<rparr>"

text \<open>Collaborators during whose first call the run is cancelled.\<close>

definition cancelling_env :: "bool environment" where
  "cancelling_env = \<lparr>js_eval = (\<lambda>expression d outs v world. (Inr (JBool True), d, outs, v, world)),
               inherited = (\<lambda>world v part. JUndefined),
               external = (\<lambda>node context world. (Inr (JStr ''done''), context, True, 0)),
               sleep = (\<lambda>ms world. world),
               aborted = (\<lambda>world. world)\<rparr>"

definition chain_workflow :: WorkflowDefinition where
  "chain_workflow = demo_workflow [demo_node ''C'' [''B''] (ExternalNode SCRIPT),
                                   demo_node ''B'' [''A''] (ExternalNode SCRIPT),
                                   demo_node ''A'' [] (ExternalNode SCRIPT)]"

definition pair_workflow :: WorkflowDefinition where
  "pair_workflow = demo_workflow [demo_node ''A'' [] (ExternalNode SCRIPT),
                                  demo_node ''B'' [] (ExternalNode SCRIPT)]"





section \<open>Cycle detection finds every cycle\<close>

lemma closed_rtrancl:
  assumes "\<forall>b\<in>B. set (neighbors graph b) \<subseteq> B" and "(s, t) \<in> (graphEdges graph)\<^sup>*" and "s \<in> B"
  shows "t \<in> B"
  using assms(2,1,3)
  by (induction rule: rtrancl_induct) (auto simp: graphEdges_def)

lemma dfs_inv_push:
  assumes "dfs_inv graph V R" and "n \<notin> V"
  shows "dfs_inv graph (insert n V) (insert n R)"
proof -
  from assms have "insert n V - insert n R = V - R" by (auto simp: dfs_inv_def)
  with assms show ?thesis by (auto simp: dfs_inv_def)
qed

lemma dfs_inv_pop:
  assumes inv: "dfs_inv graph V2 (insert n R)" and nR: "n \<notin> R"
    and nb: "set (neighbors graph n) \<subseteq> V2 - insert n R"
  shows "dfs_inv graph V2 R"
proof -
  let ?B = "V2 - insert n R"
  from inv have sub: "insert n R \<subseteq> V2"
    and closed: "\<forall>b\<in>?B. set (neighbors graph b) \<subseteq> ?B"
    and free: "\<forall>b\<in>?B. (b, b) \<notin> (graphEdges graph)\<^sup>+"
    by (auto simp: dfs_inv_def)
  have black: "V2 - R = insert n ?B" using sub nR by auto
  have "(n, n) \<notin> (graphEdges graph)\<^sup>+"
  proof
    assume "(n, n) \<in> (graphEdges graph)\<^sup>+"
    then obtain s where "(n, s) \<in> graphEdges graph" and "(s, n) \<in> (graphEdges graph)\<^sup>*"
      by (auto dest: tranclD)
    then have "s \<in> ?B" using nb by (auto simp: graphEdges_def)
    with closed \<open>(s, n) \<in> (graphEdges graph)\<^sup>*\<close> have "n \<in> ?B" by (rule closed_rtrancl)
    then show False by simp
  qed
  with closed free nb black sub show ?thesis
    unfolding dfs_inv_def by auto
qed

lemma hasCycle_sound:
  "dfs_inv graph (fst st) (snd st) \<Longrightarrow> nodeId \<notin> fst st \<Longrightarrow>
     hasCycleUtil graph nodeId st = (False, V', R') \<Longrightarrow>
       dfs_inv graph V' R' \<and> R' = snd st \<and> fst st \<subseteq> V' \<and> nodeId \<in> V'"
  "dfs_inv graph (fst st) (snd st) \<Longrightarrow>
     hasCycleLoop graph ns st = (False, V', R') \<Longrightarrow>
       dfs_inv graph V' R' \<and> R' = snd st \<and> fst st \<subseteq> V' \<and> set ns \<subseteq> V' - R'"
proof (induction graph nodeId st and graph ns st arbitrary: V' R' and V' R'
       rule: hasCycleUtil_hasCycleLoop.induct)
  case (1 graph nodeId visited recStack)
  from "1.prems" have inv: "dfs_inv graph visited recStack" and nv: "nodeId \<notin> visited"
    by simp_all
  from inv nv have nr: "nodeId \<notin> recStack" unfolding dfs_inv_def by blast
  obtain found V2 R2 where loop:
    "hasCycleLoop graph (neighbors graph nodeId) (insert nodeId visited, insert nodeId recStack)
       = (found, V2, R2)"
    by (cases "hasCycleLoop graph (neighbors graph nodeId) (insert nodeId visited, insert nodeId recStack)")
  from "1.prems"(3) loop have nf: "\<not> found" and V': "V' = V2" and R': "R' = R2 - {nodeId}"
    by (simp_all add: hasCycleUtil.simps split: if_splits)
  have pre: "dfs_inv graph (fst (insert nodeId visited, insert nodeId recStack))
                          (snd (insert nodeId visited, insert nodeId recStack))"
    using dfs_inv_push[OF inv nv] by simp
  from loop nf have loopF:
    "hasCycleLoop graph (neighbors graph nodeId) (insert nodeId visited, insert nodeId recStack)
       = (False, V2, R2)" by simp
  from "1.IH"[OF pre loopF]
  have inv2: "dfs_inv graph V2 R2" and R2: "R2 = insert nodeId recStack"
    and sub: "insert nodeId visited \<subseteq> V2"
    and nb: "set (neighbors graph nodeId) \<subseteq> V2 - R2"
    by (elim conjE, simp)+
  have "dfs_inv graph V2 recStack"
    using inv2 nr nb unfolding R2 by (rule dfs_inv_pop)
  moreover from R' R2 nr have "R' = recStack" by simp
  moreover from sub have "visited \<subseteq> V2" and "nodeId \<in> V2" by simp_all
  ultimately show ?case using V' by simp
next
  case (2 graph visited recStack)
  then show ?case by (simp add: hasCycleLoop.simps)
next
  case (3 graph neighbor rest visited recStack)
  from "3.prems" have inv: "dfs_inv graph visited recStack" by simp
  show ?case
  proof (cases "neighbor \<in> visited")
    case False
    obtain found V1 R1 where util: "hasCycleUtil graph neighbor (visited, recStack) = (found, V1, R1)"
      by (cases "hasCycleUtil graph neighbor (visited, recStack)")
    from "3.prems"(2) False util have nf: "\<not> found"
      and rest: "hasCycleLoop graph rest (V1, R1) = (False, V', R')"
      by (simp_all add: hasCycleLoop.simps split: if_splits)
    from util nf have utilF: "hasCycleUtil graph neighbor (visited, recStack) = (False, V1, R1)"
      by simp
    have pre: "dfs_inv graph (fst (visited, recStack)) (snd (visited, recStack))"
      using inv by simp
    have nv: "neighbor \<notin> fst (visited, recStack)" using False by simp
    from "3.IH"(1)[OF False pre nv utilF]
    have inv1: "dfs_inv graph V1 R1" and R1: "R1 = recStack" and sub1: "visited \<subseteq> V1"
      and in1: "neighbor \<in> V1"
      by (elim conjE, simp)+
    have pre1: "dfs_inv graph (fst (V1, R1)) (snd (V1, R1))" using inv1 by simp
    from "3.IH"(2)[OF False util[symmetric] refl nf pre1 rest]
    have inv': "dfs_inv graph V' R'" and R'eq: "R' = R1" and sub2: "V1 \<subseteq> V'"
      and restin: "set rest \<subseteq> V' - R'"
      by (elim conjE, simp)+
    from inv False have "neighbor \<notin> recStack" unfolding dfs_inv_def by blast
    with in1 sub2 R'eq R1 have "neighbor \<in> V' - R'" by blast
    moreover from sub1 sub2 have "visited \<subseteq> V'" by blast
    ultimately show ?thesis using inv' R'eq R1 restin by simp
  next
    case True
    from "3.prems"(2) True have nrec: "neighbor \<notin> recStack"
      and rest: "hasCycleLoop graph rest (visited, recStack) = (False, V', R')"
      by (simp_all add: hasCycleLoop.simps split: if_splits)
    have pre: "dfs_inv graph (fst (visited, recStack)) (snd (visited, recStack))"
      using inv by simp
    have "\<not> neighbor \<notin> visited" using True by simp
    from "3.IH"(3)[OF this nrec pre rest]
    have a: "dfs_inv graph V' R'" and b: "R' = recStack" and c: "visited \<subseteq> V'"
      and d: "set rest \<subseteq> V' - R'"
      by (elim conjE, simp)+
    from True nrec b c have "neighbor \<in> V' - R'" by blast
    with a b c d show ?thesis by simp
  qed
qed

lemma detectCycleKeys_sound:
  "dfs_inv graph V {} \<Longrightarrow> detectCycleKeys graph ks (V, {}) = (False, V', R') \<Longrightarrow>
     dfs_inv graph V' {} \<and> R' = {} \<and> V \<subseteq> V' \<and> set ks \<subseteq> V'"
proof (induction ks arbitrary: V)
  case Nil
  then show ?case by auto
next
  case (Cons k ks)
  show ?case
  proof (cases "k \<in> V")
    case True
    with Cons.prems Cons.IH[of V] show ?thesis by auto
  next
    case False
    obtain found V1 R1 where util: "hasCycleUtil graph k (V, {}) = (found, V1, R1)"
      by (cases "hasCycleUtil graph k (V, {})")
    with Cons.prems(2) False have nf: "\<not> found"
      and rest: "detectCycleKeys graph ks (V1, R1) = (False, V', R')"
      by (auto split: if_splits)
    from hasCycle_sound(1)[of graph "(V, {})" k V1 R1] Cons.prems(1) False util nf
    have "dfs_inv graph V1 R1" and "R1 = {}" and "V \<subseteq> V1" and "k \<in> V1" by auto
    with Cons.IH[of V1] rest show ?thesis by auto
  qed
qed

lemma detectCycleKeys_acyclic:
  assumes "detectCycleKeys graph (map fst graph) ({}, {}) = (False, V', R')"
  shows "acyclic (graphEdges graph)"
proof -
  have "dfs_inv graph {} {}" by (simp add: dfs_inv_def)
  from detectCycleKeys_sound[OF this assms]
  have inv: "dfs_inv graph V' {}" and keys: "fst ` set graph \<subseteq> V'" by auto
  show ?thesis
    unfolding acyclic_def
  proof (intro allI notI)
    fix x assume cyc: "(x, x) \<in> (graphEdges graph)\<^sup>+"
    then obtain s where "(x, s) \<in> graphEdges graph" by (auto dest: tranclD)
    then have "neighbors graph x \<noteq> []" by (auto simp: graphEdges_def)
    then have "x \<in> fst ` set graph"
      by (auto simp: neighbors_def split: option.splits dest!: map_of_SomeD intro: rev_image_eqI)
    with keys inv cyc show False by (auto simp: dfs_inv_def)
  qed
qed

section \<open>What a valid workflow is\<close>

lemma map_of_cycleGraph_fold:
  "map_of (fold (\<lambda>node graph. AList.update (node_id node) (dependencies node) graph) ns g0)
     = map_of g0 ++ map_of (rev (map (\<lambda>n. (node_id n, dependencies n)) ns))"
proof (induction ns arbitrary: g0)
  case Nil
  then show ?case by simp
next
  case (Cons n ns)
  show ?case
    by (rule ext) (simp add: Cons.IH AList.update_conv' map_add_def split: option.splits)
qed

lemma map_of_rev_distinct:
  assumes "distinct (map fst xs)"
  shows "map_of (rev xs) = map_of xs"
proof -
  have "distinct (map fst (rev xs))" using assms by (simp add: rev_map[symmetric])
  then show ?thesis using assms by (simp add: map_of_inject_set)
qed

lemma map_of_cycleGraph:
  assumes "distinct (map node_id ns)"
  shows "map_of (cycleGraph ns) = map_of (map (\<lambda>n. (node_id n, dependencies n)) ns)"
proof -
  have d: "distinct (map fst (map (\<lambda>n. (node_id n, dependencies n)) ns))"
    using assms by (simp add: comp_def)
  have "map_of (rev (map (\<lambda>n. (node_id n, dependencies n)) ns))
        = map_of (map (\<lambda>n. (node_id n, dependencies n)) ns)"
    using d by (rule map_of_rev_distinct)
  then show ?thesis
    by (simp add: cycleGraph_def map_of_cycleGraph_fold)
qed

lemma neighbors_cycleGraph:
  assumes "distinct (map node_id ns)"
  shows "d \<in> set (neighbors (cycleGraph ns) a)
         \<longleftrightarrow> (\<exists>n\<in>set ns. a = node_id n \<and> d \<in> set (dependencies n))"
proof
  let ?h = "\<lambda>n. (node_id n, dependencies n)"
  assume "d \<in> set (neighbors (cycleGraph ns) a)"
  then obtain ds where some: "map_of (map ?h ns) a = Some ds" and d: "d \<in> set ds"
    unfolding neighbors_def map_of_cycleGraph[OF assms] by (cases "map_of (map ?h ns) a") auto
  from map_of_SomeD[OF some] obtain n where "n \<in> set ns" "a = node_id n" "ds = dependencies n"
    by auto
  with d show "\<exists>n\<in>set ns. a = node_id n \<and> d \<in> set (dependencies n)" by blast
next
  let ?h = "\<lambda>n. (node_id n, dependencies n)"
  assume "\<exists>n\<in>set ns. a = node_id n \<and> d \<in> set (dependencies n)"
  then obtain n where n: "n \<in> set ns" "a = node_id n" "d \<in> set (dependencies n)" by blast
  have dd: "distinct (map fst (map ?h ns))"
    using assms by (simp add: comp_def)
  from n(1) have "(node_id n, dependencies n) \<in> set (map ?h ns)" by force
  with dd have "map_of (map ?h ns) (node_id n) = Some (dependencies n)"
    by (rule map_of_is_SomeI)
  with n show "d \<in> set (neighbors (cycleGraph ns) a)"
    unfolding neighbors_def map_of_cycleGraph[OF assms] by simp
qed

lemma graphEdges_cycleGraph:
  assumes "distinct (map node_id ns)"
  shows "graphEdges (cycleGraph ns) = (dependencyEdges ns)\<inverse>"
proof -
  have "(a, d) \<in> graphEdges (cycleGraph ns) \<longleftrightarrow> (d, a) \<in> dependencyEdges ns" for a d
    unfolding graphEdges_def dependencyEdges_def
    using neighbors_cycleGraph[OF assms, of d a] by auto
  then show ?thesis by auto
qed

lemma checkDuplicateIds_distinct:
  "checkDuplicateIds ns S = Inr S' \<Longrightarrow>
     distinct (map node_id ns) \<and> S' = S \<union> node_id ` set ns \<and> node_id ` set ns \<inter> S = {}"
proof (induction ns arbitrary: S)
  case Nil
  then show ?case by simp
next
  case (Cons n ns)
  from Cons.prems have fresh: "node_id n \<notin> S"
    and rest: "checkDuplicateIds ns (insert (node_id n) S) = Inr S'"
    by (simp_all split: if_splits)
  from Cons.IH[OF rest]
  have d: "distinct (map node_id ns)" and S': "S' = insert (node_id n) S \<union> node_id ` set ns"
    and disj: "node_id ` set ns \<inter> insert (node_id n) S = {}"
    by blast+
  from disj have "node_id n \<notin> node_id ` set ns" by blast
  with d fresh S' disj show ?case by auto
qed

lemma checkNodeDependencies_None:
  "checkNodeDependencies S nid ds = None \<Longrightarrow> set ds \<subseteq> S"
  by (induction ds) (auto split: if_splits)

lemma checkDependencyIds_None:
  "checkDependencyIds S ns = None \<Longrightarrow> \<forall>n\<in>set ns. set (dependencies n) \<subseteq> S"
  by (induction ns) (auto split: option.splits dest: checkNodeDependencies_None)

lemma validateWorkflow_Inr:
  assumes "validateWorkflow workflow = Inr u"
  shows "distinct (map node_id (nodes workflow))"
    and "\<forall>n\<in>set (nodes workflow). set (dependencies n) \<subseteq> node_id ` set (nodes workflow)"
    and "acyclic (dependencyEdges (nodes workflow))"
proof -
  from assms obtain S where dup: "checkDuplicateIds (nodes workflow) {} = Inr S"
    and deps: "checkDependencyIds S (nodes workflow) = None"
    and cyc: "\<not> detectCycle (nodes workflow)"
    by (auto simp: validateWorkflow_def split: sum.splits option.splits if_splits)
  from checkDuplicateIds_distinct[OF dup]
  have S: "S = node_id ` set (nodes workflow)" by simp
  from checkDuplicateIds_distinct[OF dup]
  show d: "distinct (map node_id (nodes workflow))" by simp
  from checkDependencyIds_None[OF deps] S
  show "\<forall>n\<in>set (nodes workflow). set (dependencies n) \<subseteq> node_id ` set (nodes workflow)"
    by simp
  obtain found V R where r: "detectCycleKeys (cycleGraph (nodes workflow))
      (map fst (cycleGraph (nodes workflow))) ({}, {}) = (found, V, R)"
    by (cases "detectCycleKeys (cycleGraph (nodes workflow))
      (map fst (cycleGraph (nodes workflow))) ({}, {})")
  with cyc have "\<not> found" by (simp add: detectCycle_def Let_def)
  with r have "acyclic (graphEdges (cycleGraph (nodes workflow)))"
    by (auto intro: detectCycleKeys_acyclic)
  then show "acyclic (dependencyEdges (nodes workflow))"
    by (simp add: graphEdges_cycleGraph[OF d])
qed

section \<open>Validation\<close>

text \<open>
  C4. A workflow whose dependency graph contains a cycle is rejected by validation before
  any node runs: the result of \<open>executeWorkflow\<close> has an empty \<open>nodeResults\<close> map and a
  status that is not \<open>success\<close>. (Duplicate ids and unknown dependencies are caught by
  the checks before the cycle check; they are rejected in the same way.)
\<close>

theorem C4_cycle_rejected:
  assumes "\<not> acyclic (dependencyEdges (nodes workflow))"
  shows "nodeResults (executeWorkflow env workflow initialContext execId world) = [] \<and>
         res_status (executeWorkflow env workflow initialContext execId world) \<noteq> Success \<and>
         res_status (executeWorkflow env workflow initialContext execId world) = Failed"
proof (cases "validateWorkflow workflow")
  case (Inl e)
  then show ?thesis by (simp add: executeWorkflow_def startState_def Let_def)
next
  case (Inr u)
  from validateWorkflow_Inr(3)[OF Inr] assms show ?thesis by simp
qed

theorem C4_cycle_rejected_witness:
  "\<not> acyclic (dependencyEdges (nodes (demo_workflow
        [demo_node ''A'' [''B''] (ExternalNode SCRIPT),
         demo_node ''B'' [''A''] (ExternalNode SCRIPT)]))) \<and>
   nodeResults (executeWorkflow demo_env (demo_workflow
        [demo_node ''A'' [''B''] (ExternalNode SCRIPT),
         demo_node ''B'' [''A''] (ExternalNode SCRIPT)]) [] ''run'' False) = [] \<and>
   res_status (executeWorkflow demo_env (demo_workflow
        [demo_node ''A'' [''B''] (ExternalNode SCRIPT),
         demo_node ''B'' [''A''] (ExternalNode SCRIPT)]) [] ''run'' False) \<noteq> Success \<and>
   res_status (executeWorkflow demo_env (demo_workflow
        [demo_node ''A'' [''B''] (ExternalNode SCRIPT),
         demo_node ''B'' [''A''] (ExternalNode SCRIPT)]) [] ''run'' False) = Failed"
proof -
  let ?ns = "[demo_node ''A'' [''B''] (ExternalNode SCRIPT),
              demo_node ''B'' [''A''] (ExternalNode SCRIPT)]"
  have ab: "(''A'', ''B'') \<in> dependencyEdges ?ns"
    unfolding dependencyEdges_def
    by (rule CollectI, rule exI[of _ "demo_node ''B'' [''A''] (ExternalNode SCRIPT)"],
        rule exI[of _ "''A''"]) (simp add: demo_node_def)
  have ba: "(''B'', ''A'') \<in> dependencyEdges ?ns"
    unfolding dependencyEdges_def
    by (rule CollectI, rule exI[of _ "demo_node ''A'' [''B''] (ExternalNode SCRIPT)"],
        rule exI[of _ "''B''"]) (simp add: demo_node_def)
  from ab ba have "(''A'', ''A'') \<in> (dependencyEdges ?ns)\<^sup>+"
    by (rule trancl_into_trancl2[OF _ r_into_trancl])
  then have cyc: "\<not> acyclic (dependencyEdges (nodes (demo_workflow ?ns)))"
    by (auto simp: acyclic_def demo_workflow_def)
  from cyc C4_cycle_rejected[OF cyc, of demo_env "[]" "''run''" False]
  show ?thesis by simp
qed

text \<open>
  C9. For the structural validation failures the engine's tests expect \<open>executeWorkflow\<close>
  to reject (\<open>rejects.toThrow('Duplicate node ID')\<close>). Here the validation error is thrown
  inside the \<open>try\<close> block, the \<open>catch\<close> block records the status \<open>failed\<close>, and the call
  returns a result: at a workflow with a duplicated node id, validation fails and
  \<open>executeWorkflow\<close> still delivers a result, with status \<open>failed\<close> and no node results.
\<close>

theorem C9_validation_error_is_returned_not_thrown:
  "validateWorkflow (demo_workflow [demo_node ''node-1'' [] (ExternalNode SCRIPT),
                                    demo_node ''node-1'' [] (ExternalNode SCRIPT)])
     = Inl (Error ''Duplicate node ID: node-1'')
   \<and> res_status (executeWorkflow demo_env
         (demo_workflow [demo_node ''node-1'' [] (ExternalNode SCRIPT),
                         demo_node ''node-1'' [] (ExternalNode SCRIPT)]) [] ''run'' False) = Failed
   \<and> nodeResults (executeWorkflow demo_env
         (demo_workflow [demo_node ''node-1'' [] (ExternalNode SCRIPT),
                         demo_node ''node-1'' [] (ExternalNode SCRIPT)]) [] ''run'' False) = []"
  by (simp add: validateWorkflow_def demo_workflow_def demo_node_def executeWorkflow_def
        startState_def Let_def)

section \<open>Node executor\<close>

text \<open>
  C1. Executing a condition node evaluates the expression and reports the branch name;
  it runs no node of the chosen branch. At a condition that is true, with a branch node
  that would inject \<open>x\<close> into \<open>data\<close>, the call returns the three-field record and leaves
  the context as it was, although running the branch node on that context changes it.
\<close>

theorem C1_condition_runs_no_branch_node:
  "execute demo_env (demo_node ''check'' [] (ConditionNode ''true'' [''inject''] []))
       demo_context False
     = (Inr (JObj [(''condition'', JStr ''true''), (''result'', JBool True),
                   (''branch'', JStr ''true'')]),
        demo_context, False, 0)
   \<and> fst (snd (execute demo_env
         (demo_node ''inject'' [] (ContextInjectionNode [(''x'', JNum 1)] True))
         demo_context False)) \<noteq> demo_context"
  by (simp add: execute_def demo_node_def executeCondition_def evaluateExpression_def
        demo_env_def executeContextInjection_def demo_context_def spread_def)

text \<open>
  C2. Executing a parallel node launches no child: the call returns a record of the
  configured child ids and the \<open>waitForAll\<close> flag, with no child result in it, and the
  context and the world are unchanged.
\<close>

theorem C2_parallel_runs_no_child:
  "execute demo_env (demo_node ''fan'' [] (ParallelNode [''left'', ''right''] True))
       demo_context False
     = (Inr (JObj [(''childNodes'', JArr [JStr ''left'', JStr ''right'']),
                   (''waitForAll'', JBool True)]),
        demo_context, False, 0)"
  by (simp add: execute_def demo_node_def executeParallel_def)

text \<open>
  C3. Executing a loop node runs no child node. Over the two items of \<open>data.items\<close>,
  with a bound of five rounds and a child node that would inject \<open>x\<close> into \<open>data\<close>, the
  call returns the number of rounds and one record \<open>{iteration, item}\<close> per round, with
  no child result in it, and leaves the context as it was: nothing is cloned and no
  \<open>$index\<close> or \<open>$total\<close> exists, although running the child node on that context changes
  it. A source that is no array is a type error. The number of rounds is not always
  \<open>min(length, maxIterations)\<close>: a bound of \<open>0\<close> counts as absent and gives both rounds,
  and a bound of \<open>1.5\<close> gives two rounds.
\<close>

theorem C3_loop_runs_no_child:
  "execute demo_env (demo_node ''each'' [] (LoopNode ''data.items'' [''inject''] (Some 5)))
       demo_context False
     = (Inr (JObj [(''iterations'', JNum 2),
                   (''results'', JArr [JObj [(''iteration'', JNum 0), (''item'', JStr ''a'')],
                                        JObj [(''iteration'', JNum 1), (''item'', JStr ''b'')]])]),
        demo_context, False, 0)
   \<and> fst (snd (execute demo_env
         (demo_node ''inject'' [] (ContextInjectionNode [(''x'', JNum 1)] True))
         demo_context False)) \<noteq> demo_context
   \<and> execute demo_env (demo_node ''each'' [] (LoopNode ''data.missing'' [''inject''] (Some 5)))
       demo_context False
     = (Inl (ThrowError (Error ''Loop iteration source must be an array: data.missing'')),
        demo_context, False, 0)
   \<and> executeLoop demo_env ''data.items'' (Some 0) demo_context False
     = Inr (JObj [(''iterations'', JNum 2),
                  (''results'', JArr [JObj [(''iteration'', JNum 0), (''item'', JStr ''a'')],
                                       JObj [(''iteration'', JNum 1), (''item'', JStr ''b'')]])])
   \<and> executeLoop demo_env ''data.items'' (Some (3 / 2)) demo_context False
     = Inr (JObj [(''iterations'', JNum 2),
                  (''results'', JArr [JObj [(''iteration'', JNum 0), (''item'', JStr ''a'')],
                                       JObj [(''iteration'', JNum 1), (''item'', JStr ''b'')]])])"
proof -
  have rounds: "loopRounds [JStr ''a'', JStr ''b''] 2 0 []
      = [JObj [(''iteration'', JNum 0), (''item'', JStr ''a'')],
         JObj [(''iteration'', JNum 1), (''item'', JStr ''b'')]]"
    by (simp add: loopRounds.simps[of _ _ 0] loopRounds.simps[of _ _ 1]
          loopRounds.simps[of _ _ 2])
  have rounds': "loopRounds [JStr ''a'', JStr ''b''] (3 / 2) 0 []
      = [JObj [(''iteration'', JNum 0), (''item'', JStr ''a'')],
         JObj [(''iteration'', JNum 1), (''item'', JStr ''b'')]]"
    by (simp add: loopRounds.simps[of _ _ 0] loopRounds.simps[of _ _ 1]
          loopRounds.simps[of _ _ 2])
  have items: "resolveContextPath demo_env ''data.items'' demo_context False
      = JArr [JStr ''a'', JStr ''b'']"
    by (simp add: resolveContextPath_def context_value_def demo_context_def)
  have missing: "resolveContextPath demo_env ''data.missing'' demo_context False = JUndefined"
    by (simp add: resolveContextPath_def context_value_def demo_context_def demo_env_def)
  have 1: "execute demo_env (demo_node ''each'' [] (LoopNode ''data.items'' [''inject''] (Some 5)))
       demo_context False
     = (Inr (JObj [(''iterations'', JNum 2),
                   (''results'', JArr [JObj [(''iteration'', JNum 0), (''item'', JStr ''a'')],
                                        JObj [(''iteration'', JNum 1), (''item'', JStr ''b'')]])]),
        demo_context, False, 0)"
    by (simp add: execute_def demo_node_def executeLoop_def items Let_def rounds)
  have 2: "fst (snd (execute demo_env
         (demo_node ''inject'' [] (ContextInjectionNode [(''x'', JNum 1)] True))
         demo_context False)) \<noteq> demo_context"
    by (simp add: execute_def demo_node_def executeContextInjection_def demo_context_def
          spread_def)
  have 3: "execute demo_env
       (demo_node ''each'' [] (LoopNode ''data.missing'' [''inject''] (Some 5)))
       demo_context False
     = (Inl (ThrowError (Error ''Loop iteration source must be an array: data.missing'')),
        demo_context, False, 0)"
    by (simp add: execute_def demo_node_def executeLoop_def missing)
  have 4: "executeLoop demo_env ''data.items'' (Some 0) demo_context False
     = Inr (JObj [(''iterations'', JNum 2),
                  (''results'', JArr [JObj [(''iteration'', JNum 0), (''item'', JStr ''a'')],
                                       JObj [(''iteration'', JNum 1), (''item'', JStr ''b'')]])])"
    by (simp add: executeLoop_def items Let_def rounds)
  have 5: "executeLoop demo_env ''data.items'' (Some (3 / 2)) demo_context False
     = Inr (JObj [(''iterations'', JNum 2),
                  (''results'', JArr [JObj [(''iteration'', JNum 0), (''item'', JStr ''a'')],
                                       JObj [(''iteration'', JNum 1), (''item'', JStr ''b'')]])])"
    by (simp add: executeLoop_def items Let_def rounds')
  from 1 2 3 4 5 show ?thesis by (intro conjI)
qed

section \<open>Retries\<close>

lemma retryLoop_last:
  "int (Suc made) = limit \<Longrightarrow>
   retryLoop env node limit delay kb made lastError c w =
     (case attempt env node c w of
        (Inr out, c', w') \<Rightarrow>
          (\<lparr>result_nodeId = node_id node, status = SUCCESS, output_value = out,
            error = None, attempts = Suc made\<rparr>, c', w')
      | (Inl e, c', w') \<Rightarrow> (failedResult node (Some (toError e)) (Suc made), c', w'))"
  by (subst retryLoop.simps) (auto split: prod.splits sum.splits)




text \<open>
  C10. A node without a retry policy, or with \<open>maxAttempts = 0\<close>, makes exactly one
  attempt: the result counts one attempt, and the world afterwards is the world after
  that single attempt (no sleep and no second call follow it).
\<close>

theorem C10_falsy_maxAttempts_one_attempt:
  assumes "retryPolicy node = None \<or>
           (\<exists>policy. retryPolicy node = Some policy \<and> maxAttempts policy = 0)"
  shows "attempts (fst (executeNode env node context world)) = 1 \<and>
         snd (snd (executeNode env node context world))
           = snd (snd (attempt env node (applyOverrides context (overrides node)) world))"
  using assms
  by (auto simp: executeNode_def Let_def retryLoop_last failedResult_def
           split: prod.splits sum.splits option.splits)

theorem C10_falsy_maxAttempts_one_attempt_witness:
  "(retryPolicy ((demo_node ''once'' [] (ExternalNode SCRIPT))
        \<lparr>retryPolicy := Some \<lparr>maxAttempts = 0, backoff = Linear, initialDelay = 100\<rparr>\<rparr>) = None \<or>
    (\<exists>policy. retryPolicy ((demo_node ''once'' [] (ExternalNode SCRIPT))
        \<lparr>retryPolicy := Some \<lparr>maxAttempts = 0, backoff = Linear, initialDelay = 100\<rparr>\<rparr>)
          = Some policy \<and> maxAttempts policy = 0)) \<and>
   attempts (fst (executeNode failing_env
      ((demo_node ''once'' [] (ExternalNode SCRIPT))
         \<lparr>retryPolicy := Some \<lparr>maxAttempts = 0, backoff = Linear, initialDelay = 100\<rparr>\<rparr>)
      demo_context 0)) = 1 \<and>
   snd (snd (executeNode failing_env
      ((demo_node ''once'' [] (ExternalNode SCRIPT))
         \<lparr>retryPolicy := Some \<lparr>maxAttempts = 0, backoff = Linear, initialDelay = 100\<rparr>\<rparr>)
      demo_context 0)) = 1"
proof -
  let ?node = "(demo_node ''once'' [] (ExternalNode SCRIPT))
         \<lparr>retryPolicy := Some \<lparr>maxAttempts = 0, backoff = Linear, initialDelay = 100\<rparr>\<rparr>"
  have h: "retryPolicy ?node = None \<or>
           (\<exists>policy. retryPolicy ?node = Some policy \<and> maxAttempts policy = 0)"
    by simp
  have att: "attempt failing_env ?node c w
             = (Inl (ThrowError (Error (replicate (Suc w) CHR ''x''))), c, Suc w)" for c w
    by (simp add: attempt_def failing_env_def execute_def demo_node_def executeWithTimeout_def)
  from h C10_falsy_maxAttempts_one_attempt[OF h, of failing_env demo_context 0]
  show ?thesis by (simp add: att)
qed

section \<open>Execution order\<close>

subsection \<open>The dependency graph\<close>

lemma neighbors_ensure_key [simp]: "neighbors (ensure_key graph k) x = neighbors graph x"
proof (cases "k \<in> fst ` set graph")
  case True
  then show ?thesis by (simp add: ensure_key_def)
next
  case False
  then have "map_of graph k = None" by (simp add: map_of_eq_None_iff)
  then show ?thesis
    by (auto simp: ensure_key_def neighbors_def map_add_def split: option.splits)
qed

lemma keys_ensure_key [simp]: "fst ` set (ensure_key graph k) = insert k (fst ` set graph)"
  by (auto simp: ensure_key_def)

lemma neighbors_map_entry:
  "neighbors (AList.map_entry d f graph) x =
     (if x = d \<and> d \<in> fst ` set graph then f (neighbors graph d) else neighbors graph x)"
proof (cases "map_of graph d")
  case None
  then have "d \<notin> fst ` set graph" by (simp add: map_of_eq_None_iff)
  with None show ?thesis by (simp add: neighbors_def AList.map_of_map_entry)
next
  case (Some v)
  then have "d \<in> fst ` set graph" by (metis map_of_eq_None_iff option.distinct(1))
  with Some show ?thesis by (simp add: neighbors_def AList.map_of_map_entry)
qed

lemma addDependents_keys:
  "fst ` set (addDependents graph nid deps) = fst ` set graph \<union> set deps"
  by (induction deps arbitrary: graph) (auto simp: AList.dom_map_entry)

lemma addDependents_neighbors:
  "set (neighbors (addDependents graph nid deps) x) =
     set (neighbors graph x) \<union> (if x \<in> set deps then {nid} else {})"
proof (induction deps arbitrary: graph)
  case Nil
  then show ?case by simp
next
  case (Cons d deps)
  let ?g1 = "AList.map_entry d (\<lambda>dependents. set_add dependents nid) (ensure_key graph d)"
  have step: "set (neighbors ?g1 x) = set (neighbors graph x) \<union> (if x = d then {nid} else {})"
    by (auto simp: neighbors_map_entry set_add_def)
  show ?case
    unfolding addDependents.simps Cons.IH step by auto
qed

lemma buildGraphFrom_keys:
  "fst ` set (buildGraphFrom graph ns) =
     fst ` set graph \<union> node_id ` set ns \<union> (\<Union>n\<in>set ns. set (dependencies n))"
  by (induction ns arbitrary: graph) (auto simp: addDependents_keys)

lemma buildGraphFrom_neighbors:
  "set (neighbors (buildGraphFrom graph ns) x) =
     set (neighbors graph x) \<union> {node_id n | n. n \<in> set ns \<and> x \<in> set (dependencies n)}"
proof (induction ns arbitrary: graph)
  case Nil
  then show ?case by simp
next
  case (Cons n ns)
  show ?case
    unfolding buildGraphFrom.simps Cons.IH addDependents_neighbors
    by (auto split: if_splits)
qed

lemma graphEdges_buildDependencyGraph:
  "graphEdges (buildDependencyGraph ns) = dependencyEdges ns"
proof -
  have "set (neighbors [] x) = {}" for x by (simp add: neighbors_def)
  then have "set (neighbors (buildDependencyGraph ns) x)
             = {node_id n | n. n \<in> set ns \<and> x \<in> set (dependencies n)}" for x
    by (simp add: buildDependencyGraph_def buildGraphFrom_neighbors)
  then show ?thesis
    unfolding graphEdges_def dependencyEdges_def by auto
qed

lemma keys_buildDependencyGraph:
  "fst ` set (buildDependencyGraph ns) =
     node_id ` set ns \<union> (\<Union>n\<in>set ns. set (dependencies n))"
  by (simp add: buildDependencyGraph_def buildGraphFrom_keys)

subsection \<open>The sort\<close>

lemma visit_temp:
  "visit graph nodeId st = Inr st' \<Longrightarrow> snd (snd st') = snd (snd st)"
  "visitAll graph ns st = Inr st' \<Longrightarrow> snd (snd st') = snd (snd st)"
proof (induction graph nodeId st and graph ns st arbitrary: st' and st'
       rule: visit_visitAll.induct)
  case (1 graph nodeId result visited temp)
  show ?case
  proof (cases "nodeId \<in> temp \<or> nodeId \<in> visited")
    case True
    with "1.prems" show ?thesis by (auto simp: visit.simps split: if_splits)
  next
    case False
    then have nt: "nodeId \<notin> temp" and nv: "nodeId \<notin> visited" by simp_all
    from "1.prems" nt nv obtain r1 v1 t1 where
      inner: "visitAll graph (neighbors graph nodeId) (result, visited, insert nodeId temp)
                = Inr (r1, v1, t1)"
      and st': "st' = (r1 @ [nodeId], insert nodeId v1, t1 - {nodeId})"
      by (auto simp: visit.simps split: sum.splits)
    from "1.IH"[OF nt nv inner] have "t1 = insert nodeId temp" by simp
    with st' nt show ?thesis by simp
  qed
next
  case (2 graph st)
  then show ?case by (simp add: visitAll.simps)
next
  case (3 graph depId rest st)
  from "3.prems" obtain st1 where
    first: "visit graph depId st = Inr st1" and more: "visitAll graph rest st1 = Inr st'"
    by (auto simp: visitAll.simps split: sum.splits)
  from "3.IH"(1)[OF first] "3.IH"(2)[OF first more] show ?case by simp
qed

lemma sort_inv_push:
  assumes inv: "sort_inv graph (r1, v1, insert n T)"
    and nb: "set (neighbors graph n) \<subseteq> v1"
  shows "sort_inv graph (r1 @ [n], insert n v1, insert n T - {n})"
proof -
  from inv have s: "set r1 = v1" and d: "distinct r1" and dj: "v1 \<inter> insert n T = {}"
    and ord: "\<And>pre v post. r1 = pre @ v # post \<Longrightarrow> set (neighbors graph v) \<subseteq> set pre"
    by (auto simp: sort_inv_def)
  from dj have nn: "n \<notin> v1" by blast
  have ord': "set (neighbors graph v) \<subseteq> set pre" if eq: "r1 @ [n] = pre @ v # post" for pre v post
  proof (cases post rule: rev_cases)
    case Nil
    with eq have "pre = r1" and "v = n" by simp_all
    with nb s show ?thesis by simp
  next
    case (snoc post' x)
    with eq have "r1 = pre @ v # post'" by simp
    then show ?thesis by (rule ord)
  qed
  have "\<forall>pre v post. r1 @ [n] = pre @ v # post \<longrightarrow> set (neighbors graph v) \<subseteq> set pre"
    using ord' by blast
  moreover have "set (r1 @ [n]) = insert n v1" using s by simp
  moreover have "distinct (r1 @ [n])" using d nn s by simp
  moreover have "insert n v1 \<inter> (insert n T - {n}) = {}" using dj by blast
  ultimately show ?thesis unfolding sort_inv_def by simp
qed

lemma neighbors_in_Range: "set (neighbors graph n) \<subseteq> Range (graphEdges graph)"
  by (auto simp: graphEdges_def)

lemma visit_sort_inv:
  "sort_inv graph st \<Longrightarrow> visit graph nodeId st = Inr st' \<Longrightarrow>
     sort_inv graph st' \<and> fst (snd st) \<subseteq> fst (snd st') \<and> nodeId \<in> fst (snd st') \<and>
     fst (snd st') \<subseteq> fst (snd st) \<union> insert nodeId (Range (graphEdges graph))"
  "sort_inv graph st \<Longrightarrow> visitAll graph ns st = Inr st' \<Longrightarrow>
     sort_inv graph st' \<and> fst (snd st) \<subseteq> fst (snd st') \<and> set ns \<subseteq> fst (snd st') \<and>
     fst (snd st') \<subseteq> fst (snd st) \<union> set ns \<union> Range (graphEdges graph)"
proof (induction graph nodeId st and graph ns st arbitrary: st' and st'
       rule: visit_visitAll.induct)
  case (1 graph nodeId result visited temp)
  from "1.prems"(2) have nt: "nodeId \<notin> temp"
    by (auto simp: visit.simps split: if_splits)
  show ?case
  proof (cases "nodeId \<in> visited")
    case True
    with "1.prems" nt have "st' = (result, visited, temp)" by (simp add: visit.simps)
    with "1.prems"(1) True show ?thesis by auto
  next
    case nv: False
    from "1.prems"(2) nt nv obtain r1 v1 t1 where
      inner: "visitAll graph (neighbors graph nodeId) (result, visited, insert nodeId temp)
                = Inr (r1, v1, t1)"
      and st': "st' = (r1 @ [nodeId], insert nodeId v1, t1 - {nodeId})"
      by (auto simp: visit.simps split: sum.splits)
    from visit_temp(2)[OF inner] have t1: "t1 = insert nodeId temp" by simp
    from "1.prems"(1) nv have pre: "sort_inv graph (result, visited, insert nodeId temp)"
      by (auto simp: sort_inv_def)
    from "1.IH"[OF nt nv pre inner]
    have inv1: "sort_inv graph (r1, v1, t1)" and sub: "visited \<subseteq> v1"
      and nb: "set (neighbors graph nodeId) \<subseteq> v1"
      and bound: "v1 \<subseteq> visited \<union> set (neighbors graph nodeId) \<union> Range (graphEdges graph)"
      by simp_all
    from inv1 nb have "sort_inv graph (r1 @ [nodeId], insert nodeId v1, insert nodeId temp - {nodeId})"
      unfolding t1 by (rule sort_inv_push)
    moreover from bound neighbors_in_Range[of graph nodeId]
    have "insert nodeId v1 \<subseteq> visited \<union> insert nodeId (Range (graphEdges graph))" by blast
    ultimately show ?thesis using st' t1 sub by auto
  qed
next
  case (2 graph st)
  then show ?case by (simp add: visitAll.simps)
next
  case (3 graph depId rest st)
  from "3.prems"(2) obtain st1 where
    first: "visit graph depId st = Inr st1" and more: "visitAll graph rest st1 = Inr st'"
    by (auto simp: visitAll.simps split: sum.splits)
  from "3.IH"(1)[OF "3.prems"(1) first]
  have a: "sort_inv graph st1" "fst (snd st) \<subseteq> fst (snd st1)" "depId \<in> fst (snd st1)"
    "fst (snd st1) \<subseteq> fst (snd st) \<union> insert depId (Range (graphEdges graph))"
    by simp_all
  from "3.IH"(2)[OF first a(1) more]
  have b: "sort_inv graph st'" "fst (snd st1) \<subseteq> fst (snd st')" "set rest \<subseteq> fst (snd st')"
    "fst (snd st') \<subseteq> fst (snd st1) \<union> set rest \<union> Range (graphEdges graph)"
    by simp_all
  from a b show ?case by auto
qed

lemma visit_no_throw:
  "acyclic (graphEdges graph) \<Longrightarrow> \<forall>t\<in>snd (snd st). (t, nodeId) \<in> (graphEdges graph)\<^sup>+ \<Longrightarrow>
     \<exists>st'. visit graph nodeId st = Inr st'"
  "acyclic (graphEdges graph) \<Longrightarrow>
     \<forall>t\<in>snd (snd st). \<forall>x\<in>set ns. (t, x) \<in> (graphEdges graph)\<^sup>+ \<Longrightarrow>
     \<exists>st'. visitAll graph ns st = Inr st'"
proof (induction graph nodeId st and graph ns st rule: visit_visitAll.induct)
  case (1 graph nodeId result visited temp)
  have nt: "nodeId \<notin> temp"
  proof
    assume "nodeId \<in> temp"
    with "1.prems"(2) have "(nodeId, nodeId) \<in> (graphEdges graph)\<^sup>+" by simp
    with "1.prems"(1) show False by (simp add: acyclic_def)
  qed
  show ?case
  proof (cases "nodeId \<in> visited")
    case True
    with nt have "visit graph nodeId (result, visited, temp) = Inr (result, visited, temp)"
      by (simp add: visit.simps)
    then show ?thesis by (rule exI)
  next
    case nv: False
    have "\<forall>t\<in>snd (snd (result, visited, insert nodeId temp)).
            \<forall>x\<in>set (neighbors graph nodeId). (t, x) \<in> (graphEdges graph)\<^sup>+"
    proof (intro ballI)
      fix t x assume t: "t \<in> snd (snd (result, visited, insert nodeId temp))"
        and x: "x \<in> set (neighbors graph nodeId)"
      from x have e: "(nodeId, x) \<in> graphEdges graph" by (simp add: graphEdges_def)
      show "(t, x) \<in> (graphEdges graph)\<^sup>+"
      proof (cases "t = nodeId")
        case True
        with e show ?thesis by auto
      next
        case False
        with t "1.prems"(2) have "(t, nodeId) \<in> (graphEdges graph)\<^sup>+" by simp
        with e show ?thesis by (auto intro: trancl_into_trancl)
      qed
    qed
    from "1.IH"[OF nt nv "1.prems"(1) this] obtain st1 where
      "visitAll graph (neighbors graph nodeId) (result, visited, insert nodeId temp) = Inr st1"
      by blast
    then obtain r1 v1 t1 where
      "visitAll graph (neighbors graph nodeId) (result, visited, insert nodeId temp)
         = Inr (r1, v1, t1)"
      by (cases st1) simp
    with nt nv have "visit graph nodeId (result, visited, temp)
        = Inr (r1 @ [nodeId], insert nodeId v1, t1 - {nodeId})"
      by (simp add: visit.simps)
    then show ?thesis by (rule exI)
  qed
next
  case (2 graph st)
  show ?case by (rule exI[of _ st]) (simp add: visitAll.simps)
next
  case (3 graph depId rest st)
  from "3.prems" have "\<forall>t\<in>snd (snd st). (t, depId) \<in> (graphEdges graph)\<^sup>+" by simp
  from "3.IH"(1)[OF "3.prems"(1) this] obtain st1 where first: "visit graph depId st = Inr st1"
    by blast
  from visit_temp(1)[OF first] "3.prems"(2)
  have "\<forall>t\<in>snd (snd st1). \<forall>x\<in>set rest. (t, x) \<in> (graphEdges graph)\<^sup>+" by simp
  from "3.IH"(2)[OF first "3.prems"(1) this] obtain st' where "visitAll graph rest st1 = Inr st'"
    by blast
  with first have "visitAll graph (depId # rest) st = Inr st'" by (simp add: visitAll.simps)
  then show ?case by (rule exI)
qed

lemma visitKeys_ok:
  assumes "acyclic (graphEdges graph)"
  shows "sort_inv graph st \<Longrightarrow> snd (snd st) = {} \<Longrightarrow>
     \<exists>st'. visitKeys graph ks st = Inr st' \<and> sort_inv graph st' \<and> snd (snd st') = {} \<and>
       fst (snd st) \<subseteq> fst (snd st') \<and> set ks \<subseteq> fst (snd st') \<and>
       fst (snd st') \<subseteq> fst (snd st) \<union> set ks \<union> Range (graphEdges graph)"
proof (induction ks arbitrary: st)
  case Nil
  then show ?case by simp
next
  case (Cons k ks)
  obtain result visited temp where st: "st = (result, visited, temp)" by (cases st)
  with Cons.prems have temp: "temp = {}" by simp
  show ?case
  proof (cases "k \<in> visited")
    case True
    from Cons.IH[OF Cons.prems] obtain st' where
      "visitKeys graph ks st = Inr st'" "sort_inv graph st'" "snd (snd st') = {}"
      "fst (snd st) \<subseteq> fst (snd st')" "set ks \<subseteq> fst (snd st')"
      "fst (snd st') \<subseteq> fst (snd st) \<union> set ks \<union> Range (graphEdges graph)"
      by blast
    with True st show ?thesis by auto
  next
    case False
    from visit_no_throw(1)[OF assms, of st k] Cons.prems(2)
    obtain st1 where first: "visit graph k st = Inr st1" by auto
    from visit_sort_inv(1)[OF Cons.prems(1) first]
    have a: "sort_inv graph st1" "fst (snd st) \<subseteq> fst (snd st1)" "k \<in> fst (snd st1)"
      "fst (snd st1) \<subseteq> fst (snd st) \<union> insert k (Range (graphEdges graph))"
      by simp_all
    from visit_temp(1)[OF first] Cons.prems(2) have t1: "snd (snd st1) = {}" by simp
    from Cons.IH[OF a(1) t1] obtain st' where b:
      "visitKeys graph ks st1 = Inr st'" "sort_inv graph st'" "snd (snd st') = {}"
      "fst (snd st1) \<subseteq> fst (snd st')" "set ks \<subseteq> fst (snd st')"
      "fst (snd st') \<subseteq> fst (snd st1) \<union> set ks \<union> Range (graphEdges graph)"
      by blast
    from False st first b(1) have "visitKeys graph (k # ks) st = Inr st'" by simp
    with a b show ?thesis by auto
  qed
qed

lemma comesBefore_rev:
  assumes "distinct (pre @ a # post)" and "b \<in> set pre"
  shows "comesBefore a b (rev (pre @ a # post))"
proof -
  from assms(1) have "a \<notin> set post" by auto
  then have "dropWhile (\<lambda>x. x \<noteq> a) (rev post @ a # rev pre)
             = dropWhile (\<lambda>x. x \<noteq> a) (a # rev pre)"
    by (intro dropWhile_append2) auto
  then have "dropWhile (\<lambda>x. x \<noteq> a) (rev post @ a # rev pre) = a # rev pre"
    by simp
  with assms(2) show ?thesis by (simp add: comesBefore_def)
qed

lemma topologicalSort_acyclic:
  assumes "acyclic (graphEdges graph)"
  shows "\<exists>order. topologicalSort graph = Inr order \<and> distinct order \<and>
           fst ` set graph \<subseteq> set order \<and>
           set order \<subseteq> fst ` set graph \<union> Range (graphEdges graph) \<and>
           (\<forall>a b. (a, b) \<in> graphEdges graph \<longrightarrow> comesBefore a b order)"
proof -
  have "sort_inv graph ([], {}, {})" by (simp add: sort_inv_def)
  from visitKeys_ok[OF assms this, of "map fst graph"]
  obtain result visited temp where run: "visitKeys graph (map fst graph) ([], {}, {}) = Inr (result, visited, temp)"
    and inv: "sort_inv graph (result, visited, temp)"
    and keys: "fst ` set graph \<subseteq> visited"
    and bound: "visited \<subseteq> fst ` set graph \<union> Range (graphEdges graph)"
    by (auto simp: image_subset_iff)
  from inv have s: "set result = visited" and d: "distinct result"
    and ord: "\<And>pre v post. result = pre @ v # post \<Longrightarrow> set (neighbors graph v) \<subseteq> set pre"
    by (auto simp: sort_inv_def)
  have "comesBefore a b (rev result)" if e: "(a, b) \<in> graphEdges graph" for a b
  proof -
    from e have b: "b \<in> set (neighbors graph a)" by (simp add: graphEdges_def)
    then have "neighbors graph a \<noteq> []" by auto
    then have "a \<in> fst ` set graph"
      by (auto simp: neighbors_def split: option.splits dest!: map_of_SomeD intro: rev_image_eqI)
    with keys s have "a \<in> set result" by blast
    then obtain pre post where r: "result = pre @ a # post" by (auto dest: split_list)
    from ord[OF r] b have "b \<in> set pre" by blast
    with d r show ?thesis using comesBefore_rev[of pre a post b] by simp
  qed
  then have "\<forall>a b. (a, b) \<in> graphEdges graph \<longrightarrow> comesBefore a b (rev result)"
    by blast
  moreover from run have "topologicalSort graph = Inr (rev result)"
    by (simp add: topologicalSort_def)
  moreover from d have "distinct (rev result)" by simp
  moreover from keys s have "fst ` set graph \<subseteq> set (rev result)" by simp
  moreover from bound s have "set (rev result) \<subseteq> fst ` set graph \<union> Range (graphEdges graph)"
    by simp
  ultimately show ?thesis by blast
qed

lemma valid_workflow_order:
  assumes "validateWorkflow workflow = Inr u"
  shows "\<exists>order. topologicalSort (buildDependencyGraph (nodes workflow)) = Inr order \<and>
           distinct order \<and> set order = node_id ` set (nodes workflow) \<and>
           (\<forall>n\<in>set (nodes workflow). \<forall>d\<in>set (dependencies n).
              comesBefore d (node_id n) order)"
proof -
  let ?ns = "nodes workflow"
  let ?g = "buildDependencyGraph ?ns"
  from validateWorkflow_Inr(2)[OF assms]
  have deps: "\<forall>n\<in>set ?ns. set (dependencies n) \<subseteq> node_id ` set ?ns" .
  from validateWorkflow_Inr(3)[OF assms]
  have "acyclic (graphEdges ?g)" by (simp add: graphEdges_buildDependencyGraph)
  from topologicalSort_acyclic[OF this] obtain order where
    run: "topologicalSort ?g = Inr order" and d: "distinct order"
    and lower: "fst ` set ?g \<subseteq> set order"
    and upper: "set order \<subseteq> fst ` set ?g \<union> Range (graphEdges ?g)"
    and ord: "\<forall>a b. (a, b) \<in> graphEdges ?g \<longrightarrow> comesBefore a b order"
    by (elim exE conjE)
  have "(\<Union>n\<in>set ?ns. set (dependencies n)) \<subseteq> node_id ` set ?ns"
    using deps by blast
  then have keys: "fst ` set ?g = node_id ` set ?ns"
    unfolding keys_buildDependencyGraph by blast
  have "Range (dependencyEdges ?ns) \<subseteq> node_id ` set ?ns"
    unfolding dependencyEdges_def by blast
  then have "Range (graphEdges ?g) \<subseteq> node_id ` set ?ns"
    by (simp add: graphEdges_buildDependencyGraph)
  then have "node_id ` set ?ns \<union> Range (graphEdges ?g) \<subseteq> node_id ` set ?ns"
    by (rule Un_least[OF subset_refl])
  with upper[unfolded keys] have "set order \<subseteq> node_id ` set ?ns"
    by (rule subset_trans)
  with lower[unfolded keys] have all: "set order = node_id ` set ?ns"
    by (rule equalityI[rotated])
  have before: "comesBefore dep (node_id n) order"
    if "n \<in> set ?ns" and "dep \<in> set (dependencies n)" for n dep
  proof -
    from that have "(dep, node_id n) \<in> dependencyEdges ?ns"
      unfolding dependencyEdges_def by blast
    then have "(dep, node_id n) \<in> graphEdges ?g"
      by (simp add: graphEdges_buildDependencyGraph)
    with ord show ?thesis by blast
  qed
  show ?thesis
  proof (intro exI conjI ballI)
    show "topologicalSort ?g = Inr order" by (rule run)
    show "distinct order" by (rule d)
    show "set order = node_id ` set ?ns" by (rule all)
    show "comesBefore dep (node_id n) order"
      if "n \<in> set ?ns" and "dep \<in> set (dependencies n)" for n dep
      using that by (rule before)
  qed
qed

text \<open>
  C5, as the code has it. For a valid workflow the sort returns an order that lists every
  node id exactly once, and every node comes after each of its dependencies.
\<close>

theorem C5_execution_order_topological:
  assumes "validateWorkflow workflow = Inr u"
  shows "\<exists>order. topologicalSort (buildDependencyGraph (nodes workflow)) = Inr order \<and>
           distinct order \<and> set order = node_id ` set (nodes workflow) \<and>
           (\<forall>n\<in>set (nodes workflow). \<forall>d\<in>set (dependencies n).
              comesBefore d (node_id n) order)"
  using assms by (rule valid_workflow_order)

theorem C5_execution_order_topological_witness:
  "validateWorkflow chain_workflow = Inr () \<and>
   topologicalSort (buildDependencyGraph (nodes chain_workflow)) = Inr [''A'', ''B'', ''C''] \<and>
   comesBefore ''A'' ''B'' [''A'', ''B'', ''C''] \<and>
   comesBefore ''B'' ''C'' [''A'', ''B'', ''C'']"
proof -
  have v: "validateWorkflow chain_workflow = Inr ()" by code_simp
  have s: "topologicalSort (buildDependencyGraph (nodes chain_workflow))
             = Inr [''A'', ''B'', ''C'']" by code_simp
  from C5_execution_order_topological[OF v] s
  have all: "\<forall>n\<in>set (nodes chain_workflow). \<forall>d\<in>set (dependencies n).
               comesBefore d (node_id n) [''A'', ''B'', ''C'']"
    by auto
  have "comesBefore ''A'' ''B'' [''A'', ''B'', ''C'']"
    using all by (simp add: chain_workflow_def demo_workflow_def demo_node_def)
  moreover have "comesBefore ''B'' ''C'' [''A'', ''B'', ''C'']"
    using all by (simp add: chain_workflow_def demo_workflow_def demo_node_def)
  ultimately show ?thesis using v s by simp
qed

text \<open>
  C5 as stated fails on its second half: two nodes without dependencies, declared \<open>A\<close>
  then \<open>B\<close>, are ordered \<open>B\<close> then \<open>A\<close>. The order is the reverse of the order in
  which the search finishes the nodes, and nothing restores the declaration order.
\<close>

theorem C5_declaration_order_counterexample:
  "validateWorkflow pair_workflow = Inr () \<and>
   map node_id (nodes pair_workflow) = [''A'', ''B''] \<and>
   map dependencies (nodes pair_workflow) = [[], []] \<and>
   topologicalSort (buildDependencyGraph (nodes pair_workflow)) = Inr [''B'', ''A''] \<and>
   comesBefore ''B'' ''A'' [''B'', ''A'']"
  by code_simp

section \<open>The node loop\<close>







lemma runNodes_append:
  "runNodes env workflow (xs @ ys) st = runNodes env workflow ys (runNodes env workflow xs st)"
proof (induction xs arbitrary: st)
  case Nil
  show ?case by simp
next
  case (Cons x xs)
  show ?case
  proof (cases "aborted env (run_world st)")
    case True
    then show ?thesis by (cases ys) simp_all
  next
    case False
    then show ?thesis
      by (simp add: Cons.IH split: option.splits prod.splits)
  qed
qed

lemma runNodes_results_other:
  "x \<notin> set order \<Longrightarrow>
     map_of (run_results (runNodes env workflow order st)) x = map_of (run_results st) x"
proof (induction order arbitrary: st)
  case Nil
  show ?case by simp
next
  case (Cons nid rest)
  then have ne: "x \<noteq> nid" and nr: "x \<notin> set rest" by auto
  note ih = Cons.IH[OF nr]
  show ?case
    using ne by (simp add: ih AList.update_conv' split: option.splits prod.splits)
qed





lemma executeWorkflow_valid:
  assumes "validateWorkflow workflow = Inr u"
    and "topologicalSort (buildDependencyGraph (nodes workflow)) = Inr order"
  shows "executeWorkflow env workflow initialContext execId world =
     (let final = runNodes env workflow order (startState workflow initialContext execId world)
      in \<lparr>res_workflowId = wf_id workflow, res_executionId = execId,
          res_status = run_status final, nodeResults = run_results final,
          res_context = run_context final, res_world = run_world final\<rparr>)"
  using assms by (simp add: executeWorkflow_def Let_def)

text \<open>
  C6, as the code has it. If the abort signal is set when the loop reaches a node, the
  loop stops there: the status of the result is \<open>partial\<close>, the node results are those
  recorded before, and the node reached and the nodes after it have no entry in
  \<open>nodeResults\<close>.
\<close>

theorem C6_cancelled_run_stops:
  assumes valid: "validateWorkflow workflow = Inr u"
    and order: "topologicalSort (buildDependencyGraph (nodes workflow)) = Inr (earlier @ nid # rest)"
    and ab: "aborted env (run_world (runNodes env workflow earlier
               (startState workflow initialContext execId world)))"
  shows "res_status (executeWorkflow env workflow initialContext execId world) = Partial \<and>
         nodeResults (executeWorkflow env workflow initialContext execId world)
           = run_results (runNodes env workflow earlier
               (startState workflow initialContext execId world)) \<and>
         (\<forall>n\<in>set (nid # rest).
            map_of (nodeResults (executeWorkflow env workflow initialContext execId world)) n = None)"
proof -
  let ?start = "startState workflow initialContext execId world"
  let ?mid = "runNodes env workflow earlier ?start"
  have final: "runNodes env workflow (earlier @ nid # rest) ?start = ?mid\<lparr>run_status := Partial\<rparr>"
    using ab by (simp add: runNodes_append)
  from valid_workflow_order[OF valid] order
  have d: "distinct (earlier @ nid # rest)" by auto
  have other: "map_of (run_results ?mid) n = None" if "n \<in> set (nid # rest)" for n
  proof -
    from that d have "n \<notin> set earlier" by auto
    then have "map_of (run_results ?mid) n = map_of (run_results ?start) n"
      by (rule runNodes_results_other)
    then show ?thesis by (simp add: startState_def)
  qed
  show ?thesis
    unfolding executeWorkflow_valid[OF valid order] Let_def final
    using other by simp
qed

theorem C6_cancelled_run_stops_witness:
  "validateWorkflow pair_workflow = Inr () \<and>
   topologicalSort (buildDependencyGraph (nodes pair_workflow)) = Inr ([''B''] @ ''A'' # []) \<and>
   aborted cancelling_env (run_world (runNodes cancelling_env pair_workflow [''B'']
      (startState pair_workflow [] ''run'' False))) \<and>
   res_status (executeWorkflow cancelling_env pair_workflow [] ''run'' False) = Partial \<and>
   map fst (nodeResults (executeWorkflow cancelling_env pair_workflow [] ''run'' False)) = [''B''] \<and>
   map_of (nodeResults (executeWorkflow cancelling_env pair_workflow [] ''run'' False)) ''A'' = None"
proof -
  have v: "validateWorkflow pair_workflow = Inr ()" by code_simp
  have s: "topologicalSort (buildDependencyGraph (nodes pair_workflow)) = Inr ([''B''] @ ''A'' # [])"
    by code_simp
  have a: "aborted cancelling_env (run_world (runNodes cancelling_env pair_workflow [''B'']
             (startState pair_workflow [] ''run'' False)))"
    by code_simp
  have k: "map fst (run_results (runNodes cancelling_env pair_workflow [''B'']
             (startState pair_workflow [] ''run'' False))) = [''B'']"
    by code_simp
  note c6 = C6_cancelled_run_stops[OF v s a]
  from c6 have 1: "res_status (executeWorkflow cancelling_env pair_workflow [] ''run'' False)
                   = Partial"
    by (rule conjunct1)
  from c6 k have 2: "map fst (nodeResults
      (executeWorkflow cancelling_env pair_workflow [] ''run'' False)) = [''B'']"
    by (simp only:)
  from c6 have "\<forall>n\<in>set [''A'']. map_of (nodeResults
      (executeWorkflow cancelling_env pair_workflow [] ''run'' False)) n = None"
    by (elim conjE)
  then have 3: "map_of (nodeResults
      (executeWorkflow cancelling_env pair_workflow [] ''run'' False)) ''A'' = None"
    by (simp del: runNodes.simps)
  from v s a 1 2 3 show ?thesis by (intro conjI)
qed

text \<open>
  C6 as stated fails: with \<open>A\<close> and \<open>B\<close> independent, \<open>B\<close> runs first and the run is
  cancelled during it; \<open>A\<close> is then not recorded as skipped, it is not recorded at all.
\<close>

theorem C6_unrun_node_not_recorded_counterexample:
  "res_status (executeWorkflow cancelling_env pair_workflow [] ''run'' False) = Partial \<and>
   map_of (nodeResults (executeWorkflow cancelling_env pair_workflow [] ''run'' False)) ''A'' = None"
  by code_simp




end
